theory Spec2Isabelle
  imports Main "HOL-Library.Sublist"
begin

section \<open>Python values and library functions used by the scripts\<close>

subsection \<open>Strings\<close>

text \<open>
  A Python \<open>str\<close> is modelled as a \<^typ>\<open>string\<close>, one character per code point
  (code points 0 to 255). \<open>isspace\<close> is the whitespace test shared by \<open>str.strip()\<close>
  and by the pattern \<open>\s\<close> of module \<open>re\<close> on \<open>str\<close> patterns: in this range the
  code points 9 to 13, 28 to 32, 133 and 160.
\<close>

definition isspace :: "char \<Rightarrow> bool" where
  "isspace c =
     (let n = (of_char c :: nat)
      in (9 \<le> n \<and> n \<le> 13) \<or> (28 \<le> n \<and> n \<le> 32) \<or> n = 133 \<or> n = 160)"

text \<open>\<open>s.strip()\<close>: leading and trailing whitespace removed.\<close>

definition strip :: "string \<Rightarrow> string" where
  "strip s = rev (dropWhile isspace (rev (dropWhile isspace s)))"

text \<open>
  \<open>s.split(sep)\<close> for a one-character separator: the pieces between the separators,
  empty pieces kept, so the result has one element more than \<open>s\<close> has separators.
\<close>

fun split_from :: "char \<Rightarrow> string \<Rightarrow> string \<Rightarrow> string list" where
  "split_from sep cur [] = [cur]"
| "split_from sep cur (x # xs) =
     (if x = sep then cur # split_from sep [] xs else split_from sep (cur @ [x]) xs)"

definition split :: "char \<Rightarrow> string \<Rightarrow> string list" where
  "split sep s = split_from sep [] s"

subsection \<open>Regular expressions\<close>

text \<open>
  The fragment of module \<open>re\<close> that the three patterns of \<open>_parse_round\<close> use: a
  pattern is a sequence of atoms, each a single character of a class, a greedy or lazy
  repetition of a class with a minimum count, or a parenthesis of group 1. \<open>Dot\<close> is
  \<open>.\<close> under \<open>re.DOTALL\<close> (every character, newlines included), \<open>NotChr c\<close> is
  \<open>[^c]\<close>, \<open>Space\<close> is \<open>\s\<close>.
\<close>

datatype cclass = Chr char | Space | NotChr char | Dot

fun in_class :: "cclass \<Rightarrow> char \<Rightarrow> bool" where
  "in_class (Chr c) x = (x = c)"
| "in_class Space x = isspace x"
| "in_class (NotChr c) x = (x \<noteq> c)"
| "in_class Dot x = True"

datatype atom = One cclass | Greedy cclass nat | Lazy cclass nat | GroupOpen | GroupClose

text \<open>A literal piece of a pattern.\<close>

definition lit :: "string \<Rightarrow> atom list" where
  "lit t = map (\<lambda>c. One (Chr c)) t"

text \<open>
  Backtracking over the number of repetitions: a greedy repetition tries the longest run
  first and gives characters back one at a time down to its minimum (\<open>first_down f m k\<close>
  tries \<open>k, k - 1, ..., m\<close>); a lazy one starts at its minimum and takes one more
  character at a time (\<open>first_up f n c\<close> tries the \<open>c\<close> counts \<open>n, n + 1, ...\<close>).
  The first count for which the rest of the pattern matches is the one kept.
\<close>

primrec first_down :: "(nat \<Rightarrow> 'a option) \<Rightarrow> nat \<Rightarrow> nat \<Rightarrow> 'a option" where
  "first_down f m 0 = (if m = 0 then f 0 else None)"
| "first_down f m (Suc k) =
     (if Suc k < m then None
      else (case f (Suc k) of Some r \<Rightarrow> Some r | None \<Rightarrow> first_down f m k))"

primrec first_up :: "(nat \<Rightarrow> 'a option) \<Rightarrow> nat \<Rightarrow> nat \<Rightarrow> 'a option" where
  "first_up f n 0 = None"
| "first_up f n (Suc c) =
     (case f n of Some r \<Rightarrow> Some r | None \<Rightarrow> first_up f (Suc n) c)"

text \<open>
  \<open>rmatch p gs ge s\<close> matches pattern \<open>p\<close> at the start of \<open>s\<close>. \<open>gs\<close> and \<open>ge\<close>
  are the input as it stood where group 1 opened and closed. The result is the text of
  group 1 and the input left after the match.
\<close>

primrec rmatch :: "atom list \<Rightarrow> string \<Rightarrow> string \<Rightarrow> string \<Rightarrow> (string \<times> string) option" where
  "rmatch [] gs ge s = Some (take (length gs - length ge) gs, s)"
| "rmatch (a # p) gs ge s =
     (case a of
        One c \<Rightarrow>
          (case s of [] \<Rightarrow> None
           | x # xs \<Rightarrow> if in_class c x then rmatch p gs ge xs else None)
      | Greedy c m \<Rightarrow>
          first_down (\<lambda>n. rmatch p gs ge (drop n s)) m (length (takeWhile (in_class c) s))
      | Lazy c m \<Rightarrow>
          first_up (\<lambda>n. rmatch p gs ge (drop n s)) m
            (Suc (length (takeWhile (in_class c) s)) - m)
      | GroupOpen \<Rightarrow> rmatch p s ge s
      | GroupClose \<Rightarrow> rmatch p gs s s)"

definition match_at :: "atom list \<Rightarrow> string \<Rightarrow> (string \<times> string) option" where
  "match_at p s = rmatch p s s s"

text \<open>
  \<open>re.search(p, s)\<close>: the match at the leftmost position that has one; the result is
  \<open>group(1)\<close> and the input after the match, \<open>None\<close> when no position matches.
\<close>

fun search :: "atom list \<Rightarrow> string \<Rightarrow> (string \<times> string) option" where
  "search p [] = match_at p []"
| "search p (x # xs) =
     (case match_at p (x # xs) of Some r \<Rightarrow> Some r | None \<Rightarrow> search p xs)"

text \<open>
  \<open>re.findall(p, s)\<close> for a pattern with one group: scanning from the left, each match
  contributes its group 1 and the scan goes on where the match ended; where nothing
  matches the scan moves one character on. A match that consumes nothing does not occur
  for the pattern used here (lemma \<open>deal_match_Some\<close>); the scan steps one
  character past it.
\<close>

function findall :: "atom list \<Rightarrow> string \<Rightarrow> string list" where
  "findall p s =
     (case match_at p s of
        Some (g, rest) \<Rightarrow>
          if length rest < length s then g # findall p rest
          else (case s of [] \<Rightarrow> [g] | _ # xs \<Rightarrow> g # findall p xs)
      | None \<Rightarrow> (case s of [] \<Rightarrow> [] | _ # xs \<Rightarrow> findall p xs))"
  by pat_completeness auto
termination
  by (relation "measure (\<lambda>(p, s). length s)") auto

declare findall.simps [simp del]

section \<open>The patterns of \<open>_parse_round\<close>\<close>

definition deal_pattern :: "atom list" where
  "deal_pattern =
     lit ''<DEAL>'' @ [Greedy Space 0, GroupOpen, Greedy (NotChr CHR ''<'') 1, GroupClose,
       Greedy Space 0] @ lit ''</DEAL>''"

definition scratchpad_pattern :: "atom list" where
  "scratchpad_pattern =
     lit ''<SCRATCHPAD>'' @ [GroupOpen, Lazy Dot 0, GroupClose] @ lit ''</SCRATCHPAD>''"

definition answer_pattern :: "atom list" where
  "answer_pattern = lit ''<ANSWER>'' @ [GroupOpen, Lazy Dot 0, GroupClose] @ lit ''</ANSWER>''"

section \<open>JSON values and the Python operations applied to them\<close>

text \<open>
  What \<open>json.load\<close> returns: \<open>None\<close>, a \<open>bool\<close>, an \<open>int\<close>, a \<open>str\<close>, a
  \<open>list\<close> or a \<open>dict\<close> with \<open>str\<close> keys, the dict as the list of its items in
  insertion order. Numbers with a fraction or an exponent (\<open>float\<close>) are not modelled.
\<close>

datatype json =
    JNull
  | JBool bool
  | JInt int
  | JStr string
  | JArr "json list"
  | JObj "(string \<times> json) list"

text \<open>
  The exceptions (all subclasses of \<open>Exception\<close>) that the modelled code can raise or
  receive; \<open>ClientError\<close> stands for whatever the Docent client raises.
\<close>

datatype error =
    AttributeError
  | TypeError
  | KeyError string
  | ValueError
  | OSError
  | JSONDecodeError
  | ClientError string

fun and_then :: "error + 'a \<Rightarrow> ('a \<Rightarrow> error + 'b) \<Rightarrow> error + 'b" where
  "and_then (Inl e) f = Inl e"
| "and_then (Inr x) f = f x"

text \<open>\<open>d.get(k, default)\<close>: only a dict has the method.\<close>

fun dict_get :: "json \<Rightarrow> string \<Rightarrow> json \<Rightarrow> error + json" where
  "dict_get (JObj kvs) k d = Inr (case map_of kvs k of Some v \<Rightarrow> v | None \<Rightarrow> d)"
| "dict_get _ k d = Inl AttributeError"

text \<open>\<open>x[k]\<close> for a \<open>str\<close> key \<open>k\<close>.\<close>

fun subscript :: "json \<Rightarrow> string \<Rightarrow> error + json" where
  "subscript (JObj kvs) k = (case map_of kvs k of Some v \<Rightarrow> Inr v | None \<Rightarrow> Inl (KeyError k))"
| "subscript _ k = Inl TypeError"

text \<open>\<open>len(x)\<close>.\<close>

fun py_len :: "json \<Rightarrow> error + nat" where
  "py_len (JStr s) = Inr (length s)"
| "py_len (JArr xs) = Inr (length xs)"
| "py_len (JObj kvs) = Inr (length kvs)"
| "py_len _ = Inl TypeError"

text \<open>
  The elements a \<open>for\<close> loop over \<open>x\<close> visits: the items of a list, the characters of a
  string, the keys of a dict.
\<close>

fun py_iter :: "json \<Rightarrow> error + json list" where
  "py_iter (JArr xs) = Inr xs"
| "py_iter (JStr s) = Inr (map (\<lambda>c. JStr [c]) s)"
| "py_iter (JObj kvs) = Inr (map (\<lambda>kv. JStr (fst kv)) kvs)"
| "py_iter _ = Inl TypeError"

text \<open>Truth value of \<open>x\<close> in \<open>if x\<close> and \<open>x or y\<close>.\<close>

fun truthy :: "json \<Rightarrow> bool" where
  "truthy JNull = False"
| "truthy (JBool b) = b"
| "truthy (JInt n) = (n \<noteq> 0)"
| "truthy (JStr s) = (s \<noteq> [])"
| "truthy (JArr xs) = (xs \<noteq> [])"
| "truthy (JObj kvs) = (kvs \<noteq> [])"

definition py_or :: "json \<Rightarrow> json \<Rightarrow> json" where
  "py_or a b = (if truthy a then a else b)"

section \<open>Trajectory parser (\<open>docent_trajectory_parser.py\<close>)\<close>

subsection \<open>\<open>_load_config\<close>\<close>

record agent_config =
  short_name :: string
  player_type :: string
  strategy :: string
  model :: string

type_synonym config = "string \<rightharpoonup> agent_config"

text \<open>\<open>line.strip().split(',')\<close>, the fields of a line.\<close>

definition parts_of :: "string \<Rightarrow> string list" where
  "parts_of line = split CHR '','' (strip line)"

text \<open>The body of the loop over the lines of \<open>config.txt\<close>.\<close>

definition load_line :: "config \<Rightarrow> string \<Rightarrow> config" where
  "load_line config line =
     (let parts = parts_of line
      in if length parts \<ge> 5
         then config(parts ! 0 \<mapsto>
                \<lparr>short_name = parts ! 1, player_type = parts ! 2,
                 strategy = parts ! 3, model = parts ! 4\<rparr>)
         else config)"

text \<open>
  \<open>_load_config\<close>. The argument is \<open>None\<close> when \<open>config.txt\<close> does not exist, else the
  lines the file iterator yields, each with its line end.
\<close>

fun load_config :: "string list option \<Rightarrow> config" where
  "load_config None = Map.empty"
| "load_config (Some lines) = foldl load_line Map.empty lines"

subsection \<open>\<open>_parse_round\<close>\<close>

record parsed_round =
  round_index :: nat
  agent :: json
  agent_cfg :: "agent_config option"
  prompt :: json
  full_answer :: string
  public_answer :: json
  deals_proposed :: "string list"
  scratchpad_reasoning :: "string option"
  message_length :: nat
  has_scratchpad :: bool
  has_deal :: bool

text \<open>The pattern functions of \<open>re\<close> accept a \<open>str\<close> only.\<close>

fun as_text :: "json \<Rightarrow> error + string" where
  "as_text (JStr s) = Inr s"
| "as_text _ = Inl TypeError"

text \<open>
  \<open>self.config.get(agent, {})\<close>: a list or a dict is not hashable and cannot be looked
  up; \<open>None\<close> stands for the empty dict returned for an unknown agent.
\<close>

fun config_get :: "config \<Rightarrow> json \<Rightarrow> error + agent_config option" where
  "config_get config (JStr a) = Inr (config a)"
| "config_get config (JArr xs) = Inl TypeError"
| "config_get config (JObj kvs) = Inl TypeError"
| "config_get config _ = Inr None"

definition parse_round :: "config \<Rightarrow> json \<Rightarrow> nat \<Rightarrow> error + parsed_round" where
  "parse_round config round_data round_idx =
     and_then (dict_get round_data ''agent'' (JStr [])) (\<lambda>agent.
     and_then (dict_get round_data ''full_answer'' (JStr [])) (\<lambda>fa.
     and_then (as_text fa) (\<lambda>full_answer.
     let deals = findall deal_pattern full_answer;
         scratchpad_match = search scratchpad_pattern full_answer;
         scratchpad_content =
           (case scratchpad_match of Some (g, _) \<Rightarrow> Some (strip g) | None \<Rightarrow> None);
         answer_match = search answer_pattern full_answer
     in
     and_then (case answer_match of
                 Some (g, _) \<Rightarrow> Inr (JStr (strip g))
               | None \<Rightarrow> dict_get round_data ''public_answer'' (JStr [])) (\<lambda>public_answer.
     and_then (config_get config agent) (\<lambda>agent_config.
     and_then (dict_get round_data ''prompt'' (JStr [])) (\<lambda>prompt.
     Inr \<lparr>round_index = round_idx,
          agent = agent,
          agent_cfg = agent_config,
          prompt = prompt,
          full_answer = full_answer,
          public_answer = public_answer,
          deals_proposed = deals,
          scratchpad_reasoning = scratchpad_content,
          message_length = length full_answer,
          has_scratchpad = (scratchpad_content \<noteq> None),
          has_deal = (length deals > 0)\<rparr>))))))"

text \<open>
  A text made of deal spans: for each pair, the text before the span and the content of
  the span, and after the last span the rest of the text.
\<close>

fun with_deals :: "(string \<times> string) list \<Rightarrow> string \<Rightarrow> string" where
  "with_deals [] post = post"
| "with_deals ((pre, A) # spans) post =
     pre @ ''<DEAL>'' @ A @ ''</DEAL>'' @ with_deals spans post"

subsection \<open>\<open>parse_trajectory_file\<close>\<close>

text \<open>
  An input file: its name and what \<open>open\<close> followed by \<open>json.load\<close> gives for it, the
  decoded value or the exception raised.
\<close>

record json_file =
  file_name :: string
  loaded :: "error + json"

record parse_metadata =
  config_snapshot :: config
  total_rounds :: nat
  finished_rounds :: json

record parsed_data =
  filename :: string
  slot_assignment :: json
  rounds :: "parsed_round list"
  metadata :: parse_metadata

text \<open>The loop over \<open>enumerate(data.get('rounds', []))\<close>, from index \<open>i\<close> on.\<close>

fun parse_rounds :: "config \<Rightarrow> nat \<Rightarrow> json list \<Rightarrow> error + parsed_round list" where
  "parse_rounds config i [] = Inr []"
| "parse_rounds config i (round_data # rest) =
     (case parse_round config round_data i of
        Inl e \<Rightarrow> Inl e
      | Inr parsed_round \<Rightarrow>
          (case parse_rounds config (Suc i) rest of
             Inl e \<Rightarrow> Inl e
           | Inr others \<Rightarrow> Inr (parsed_round # others)))"

definition parse_trajectory_file :: "config \<Rightarrow> json_file \<Rightarrow> error + parsed_data" where
  "parse_trajectory_file config file =
     and_then (loaded file) (\<lambda>data.
     and_then (dict_get data ''slot_assignment'' (JArr [])) (\<lambda>slots.
     and_then (dict_get data ''rounds'' (JArr [])) (\<lambda>rs.
     and_then (py_len rs) (\<lambda>n.
     and_then (dict_get data ''finished_rounds'' (JInt 0)) (\<lambda>finished.
     and_then (py_iter rs) (\<lambda>items.
     and_then (parse_rounds config 0 items) (\<lambda>parsed.
     Inr \<lparr>filename = file_name file,
          slot_assignment = slots,
          rounds = parsed,
          metadata = \<lparr>config_snapshot = config, total_rounds = n,
                      finished_rounds = finished\<rparr>\<rparr>)))))))"

subsection \<open>\<open>convert_to_docent_format\<close>\<close>

record message =
  role :: string
  content :: json

record run_metadata =
  run_filename :: string
  experiment_type :: string
  run_total_rounds :: nat

record run =
  messages :: "message list"
  run_meta :: run_metadata

text \<open>The messages one round appends: its prompt, if truthy, then its answer.\<close>

definition round_messages :: "parsed_round \<Rightarrow> message list" where
  "round_messages round_data =
     (if truthy (prompt round_data)
      then [\<lparr>role = ''user'', content = prompt round_data\<rparr>] else [])
     @ [\<lparr>role = ''assistant'',
         content = py_or (public_answer round_data) (JStr (full_answer round_data))\<rparr>]"

definition convert_to_docent_format :: "parsed_data \<Rightarrow> run list" where
  "convert_to_docent_format pd =
     [\<lparr>messages = foldl (\<lambda>msgs round_data. msgs @ round_messages round_data) [] (rounds pd),
       run_meta = \<lparr>run_filename = filename pd,
                   experiment_type = ''multi_agent_negotiation'',
                   run_total_rounds = total_rounds (metadata pd)\<rparr>\<rparr>]"

subsection \<open>\<open>process_all_trajectories\<close> and the archival step of \<open>main\<close>\<close>

text \<open>\<open>glob("history*.json")\<close> on a file name.\<close>

definition glob_history :: "string \<Rightarrow> bool" where
  "glob_history n = (prefix ''history'' n \<and> suffix ''.json'' (drop 7 n))"

text \<open>
  The loop over the files: the \<open>try\<close> block either extends both lists or, when
  anything in it raises, leaves them as they are.
\<close>

fun process_files :: "config \<Rightarrow> json_file list \<Rightarrow> run list \<times> json_file list
    \<Rightarrow> run list \<times> json_file list" where
  "process_files config [] (all_runs, processed_files) = (all_runs, processed_files)"
| "process_files config (json_file # rest) (all_runs, processed_files) =
     (case parse_trajectory_file config json_file of
        Inr pd \<Rightarrow>
          process_files config rest
            (all_runs @ convert_to_docent_format pd, processed_files @ [json_file])
      | Inl e \<Rightarrow> process_files config rest (all_runs, processed_files))"

text \<open>
  The \<open>try\<close> block raises for a file exactly when \<open>parse_trajectory_file\<close> does:
  \<open>convert_to_docent_format\<close> and the two list updates cannot fail.
\<close>

definition raises :: "config \<Rightarrow> json_file \<Rightarrow> bool" where
  "raises config json_file = isl (parse_trajectory_file config json_file)"

text \<open>The argument is the listing of the data directory, in the order \<open>glob\<close> reads it.\<close>

definition process_all_trajectories :: "config \<Rightarrow> json_file list \<Rightarrow> run list \<times> json_file list" where
  "process_all_trajectories config dir =
     process_files config (filter (\<lambda>f. glob_history (file_name f)) dir) ([], [])"

text \<open>
  The data directory and its \<open>processed\<close> subdirectory, each as the list of its files.
  \<open>json_file.rename(destination)\<close> takes the file of that name out of the data directory
  and puts it into \<open>processed\<close>, where it replaces a file of the same name if there is
  one, as \<open>rename\<close> does on a POSIX file system.
\<close>

record directories =
  data_dir :: "json_file list"
  processed_dir :: "json_file list"

definition rename_into :: "directories \<Rightarrow> json_file \<Rightarrow> directories" where
  "rename_into dirs json_file =
     \<lparr>data_dir = filter (\<lambda>g. file_name g \<noteq> file_name json_file) (data_dir dirs),
      processed_dir =
        filter (\<lambda>g. file_name g \<noteq> file_name json_file) (processed_dir dirs) @ [json_file]\<rparr>"

text \<open>
  \<open>main\<close> of the parser: the runs written to \<open>docent_prepared_data.json\<close> and the two
  directories after the loop that renames every file of \<open>processed_files\<close>. Creating
  \<open>processed\<close> and the renames are taken to succeed.
\<close>

definition main :: "string list option \<Rightarrow> directories \<Rightarrow> run list \<times> directories" where
  "main config_txt dirs =
     (let parser_config = load_config config_txt;
          (docent_runs, processed_files) = process_all_trajectories parser_config (data_dir dirs)
      in (docent_runs, foldl rename_into dirs processed_files))"

section \<open>Ingestion uploader (\<open>docent_proper_ingestion.py\<close>)\<close>

text \<open>
  The objects of the Docent SDK are records of the arguments their constructors get.
  An f-string is kept as its parts, the literal text and the values put into it.
\<close>

datatype chat_message = UserMessage json | AssistantMessage json

datatype fpart = Text string | Val json

record transcript =
  transcript_name :: "fpart list"
  transcript_description :: "fpart list"
  transcript_messages :: "chat_message list"

record 'f agent_run =
  run_name :: "fpart list"
  run_description :: "fpart list"
  transcripts :: "(string \<times> transcript) list"
  scores :: "(string \<times> 'f) list"

text \<open>
  The body of the loop over \<open>run_data['messages']\<close>: the messages it appends for
  \<open>msg\<close>, one for the role \<open>user\<close> or \<open>assistant\<close> and none for any other role.
\<close>

definition convert_message :: "json \<Rightarrow> error + chat_message list" where
  "convert_message msg =
     and_then (subscript msg ''role'') (\<lambda>r.
       if r = JStr ''user''
       then and_then (subscript msg ''content'') (\<lambda>c. Inr [UserMessage c])
       else if r = JStr ''assistant''
       then and_then (subscript msg ''content'') (\<lambda>c. Inr [AssistantMessage c])
       else Inr [])"

fun convert_messages :: "json list \<Rightarrow> error + chat_message list" where
  "convert_messages [] = Inr []"
| "convert_messages (msg # rest) =
     (case convert_message msg of
        Inl e \<Rightarrow> Inl e
      | Inr new \<Rightarrow>
          (case convert_messages rest of
             Inl e \<Rightarrow> Inl e
           | Inr others \<Rightarrow> Inr (new @ others)))"

text \<open>
  \<open>converts_to msg c\<close>: the chat message \<open>c\<close> is the one built from \<open>msg\<close>, of the
  class of its role and with its content.
\<close>

definition converts_to :: "json \<Rightarrow> chat_message \<Rightarrow> bool" where
  "converts_to msg c =
     (case c of
        UserMessage x \<Rightarrow>
          subscript msg ''role'' = Inr (JStr ''user'') \<and> subscript msg ''content'' = Inr x
      | AssistantMessage x \<Rightarrow>
          subscript msg ''role'' = Inr (JStr ''assistant'') \<and> subscript msg ''content'' = Inr x)"

text \<open>A message whose role is exactly \<open>user\<close> or \<open>assistant\<close>.\<close>

definition has_chat_role :: "json \<Rightarrow> bool" where
  "has_chat_role msg =
     (subscript msg ''role'' = Inr (JStr ''user'')
      \<or> subscript msg ''role'' = Inr (JStr ''assistant''))"

text \<open>
  The body of the loop over \<open>enumerate(runs_data)\<close>. \<open>float\<close> is Python's built-in
  coercion, a parameter of the model: it returns a floating-point number or raises.
\<close>

definition create_agent_run :: "(json \<Rightarrow> error + 'f) \<Rightarrow> nat \<Rightarrow> json \<Rightarrow> error + 'f agent_run" where
  "create_agent_run float i run_data =
     and_then (subscript run_data ''messages'') (\<lambda>ms.
     and_then (py_iter ms) (\<lambda>items.
     and_then (convert_messages items) (\<lambda>msgs.
     and_then (subscript run_data ''metadata'') (\<lambda>md.
     and_then (subscript md ''filename'') (\<lambda>fname.
     let transcript =
           \<lparr>transcript_name = [Text ''Negotiation Session '', Val (JInt (int i + 1))],
            transcript_description = [Text ''Multi-agent negotiation from '', Val fname],
            transcript_messages = msgs\<rparr>
     in
     and_then (dict_get md ''total_rounds'' (JInt 0)) (\<lambda>tr.
     and_then (float tr) (\<lambda>total.
     and_then (float (JInt (int (length msgs)))) (\<lambda>count.
     and_then (float (JInt (int i + 1))) (\<lambda>session.
     Inr \<lparr>run_name = [Text ''Negotiation Session '', Val (JInt (int i + 1))],
          run_description = [Text ''Agent negotiation session from '', Val fname],
          transcripts = [(''main'', transcript)],
          scores = [(''total_rounds'', total), (''message_count'', count),
                    (''session_id'', session)]\<rparr>)))))))))"

fun create_from :: "(json \<Rightarrow> error + 'f) \<Rightarrow> nat \<Rightarrow> json list \<Rightarrow> error + 'f agent_run list" where
  "create_from float i [] = Inr []"
| "create_from float i (run_data # rest) =
     (case create_agent_run float i run_data of
        Inl e \<Rightarrow> Inl e
      | Inr agent_run \<Rightarrow>
          (case create_from float (Suc i) rest of
             Inl e \<Rightarrow> Inl e
           | Inr others \<Rightarrow> Inr (agent_run # others)))"

text \<open>
  \<open>create_agent_runs_from_data\<close>; the argument \<open>data_file\<close> is what \<open>open\<close> and
  \<open>json.load\<close> give for \<open>docent_prepared_data.json\<close>.
\<close>

definition create_agent_runs_from_data ::
    "(json \<Rightarrow> error + 'f) \<Rightarrow> error + json \<Rightarrow> error + 'f agent_run list" where
  "create_agent_runs_from_data float data_file =
     and_then data_file (\<lambda>runs_data.
     and_then (py_iter runs_data) (\<lambda>items. create_from float 0 items))"

text \<open>
  \<open>ingest_to_collection\<close>. The client is a state \<open>c\<close> and its operation
  \<open>add_agent_runs\<close>, which returns or raises and leaves the client in a new state. The
  agent runs are built before the \<open>try\<close> block, so an exception there is not caught.
\<close>

definition ingest_to_collection ::
    "(json \<Rightarrow> error + 'f) \<Rightarrow> ('c \<Rightarrow> string \<Rightarrow> 'f agent_run list \<Rightarrow> (error + 'r) \<times> 'c) \<Rightarrow> 'c
      \<Rightarrow> error + json \<Rightarrow> string \<Rightarrow> error + ((bool \<times> nat) \<times> 'c)" where
  "ingest_to_collection float add_agent_runs client data_file collection_id =
     and_then (create_agent_runs_from_data float data_file) (\<lambda>agent_runs.
     (case add_agent_runs client collection_id agent_runs of
        (Inr result, client') \<Rightarrow> Inr ((True, length agent_runs), client')
      | (Inl e, client') \<Rightarrow> Inr ((False, 0), client')))"

section \<open>Properties\<close>

section \<open>Example inputs\<close>

text \<open>A round as the experiment logs it, with all three kinds of span.\<close>

definition example_round :: json where
  "example_round = JObj
     [(''agent'', JStr ''Alice''),
      (''prompt'', JStr ''Your turn.''),
      (''full_answer'',
         JStr ''Hi <SCRATCHPAD> plan\<newline>B </SCRATCHPAD><ANSWER> I offer 5 </ANSWER><DEAL> a:1, b:2</DEAL> or <DEAL>a:2, b:1 </DEAL>''),
      (''public_answer'', JStr ''ignored'')]"

text \<open>A round with no span at all, and one whose deal tags are empty or hold a \<open><\<close>.\<close>

definition plain_round :: json where
  "plain_round = JObj
     [(''agent'', JStr ''Bob''),
      (''prompt'', JStr ''Your turn.''),
      (''full_answer'', JStr ''I will think about it.''),
      (''public_answer'', JStr ''Let me think.'')]"

definition bad_deals_round :: json where
  "bad_deals_round = JObj
     [(''agent'', JStr ''Bob''),
      (''full_answer'', JStr ''<DEAL></DEAL> and <DEAL>a<b</DEAL>'')]"

text \<open>A round that has a prompt, no tag in its answer and no \<open>public_answer\<close> field.\<close>

definition bare_round :: json where
  "bare_round = JObj
     [(''agent'', JStr ''Carol''),
      (''prompt'', JStr ''Final call.''),
      (''full_answer'', JStr ''No deal.'')]"

text \<open>
  Three trajectory files: the first and the third parse, the second holds a round whose
  \<open>full_answer\<close> is \<open>null\<close>, on which \<open>re.findall\<close> raises. The directory also holds
  \<open>config.txt\<close>, which the \<open>glob\<close> pattern does not match.
\<close>

definition history_1 :: json_file where
  "history_1 =
     \<lparr>file_name = ''history_1.json'',
      loaded = Inr (JObj [(''slot_assignment'', JArr [JStr ''p1'', JStr ''p2'']),
                          (''rounds'', JArr [example_round, plain_round, bare_round]),
                          (''finished_rounds'', JInt 3)])\<rparr>"

definition history_2 :: json_file where
  "history_2 =
     \<lparr>file_name = ''history_2.json'',
      loaded = Inr (JObj [(''rounds'', JArr [JObj [(''full_answer'', JNull)]])])\<rparr>"

definition history_3 :: json_file where
  "history_3 =
     \<lparr>file_name = ''history_3.json'',
      loaded = Inr (JObj [(''rounds'', JArr [plain_round])])\<rparr>"

definition config_file :: json_file where
  "config_file = \<lparr>file_name = ''config.txt'', loaded = Inl JSONDecodeError\<rparr>"

text \<open>
  The configuration file of the specification's example, with a line of three fields,
  and one in which two lines name the same agent.
\<close>

definition example_config :: "string list" where
  "example_config = [''Alice,A1,buyer,aggressive,gpt-4\<newline>'', ''Bob,B1,seller\<newline>'']"

definition repeated_config :: "string list" where
  "repeated_config =
     [''Alice,A1,buyer,aggressive,gpt-4\<newline>'', ''Alice,A2,seller,passive,gpt-3\<newline>'']"

text \<open>
  An intermediate artifact of two runs: the first has a message of role \<open>system\<close>, the
  second has no messages and no \<open>total_rounds\<close>.
\<close>

definition example_artifact :: json where
  "example_artifact = JArr
     [JObj [(''messages'', JArr
               [JObj [(''role'', JStr ''user''), (''content'', JStr ''Your turn.'')],
                JObj [(''role'', JStr ''system''), (''content'', JStr ''Be brief.'')],
                JObj [(''role'', JStr ''assistant''), (''content'', JStr ''I offer 5'')]]),
            (''metadata'', JObj
               [(''filename'', JStr ''history_1.json''),
                (''experiment_type'', JStr ''multi_agent_negotiation''),
                (''total_rounds'', JInt 1)])],
      JObj [(''messages'', JArr []),
            (''metadata'', JObj [(''filename'', JStr ''history_3.json'')])]]"

text \<open>
  For the examples, \<open>float\<close> on integers and booleans, a floating-point number written
  as the integer it equals; the conversion of strings is left out.
\<close>

fun float_of :: "json \<Rightarrow> error + int" where
  "float_of (JInt n) = Inr n"
| "float_of (JBool b) = Inr (if b then 1 else 0)"
| "float_of (JStr s) = Inl ValueError"
| "float_of _ = Inl TypeError"

text \<open>
  Two clients for the examples, the state being the list of the calls received, each a
  collection and the number of agent runs: one accepts every batch, one raises.
\<close>

definition accepting :: "(string \<times> nat) list \<Rightarrow> string \<Rightarrow> int agent_run list
    \<Rightarrow> (error + unit) \<times> (string \<times> nat) list" where
  "accepting calls collection_id agent_runs =
     (Inr (), calls @ [(collection_id, length agent_runs)])"

definition failing :: "(string \<times> nat) list \<Rightarrow> string \<Rightarrow> int agent_run list
    \<Rightarrow> (error + unit) \<times> (string \<times> nat) list" where
  "failing calls collection_id agent_runs =
     (Inl (ClientError ''connection reset''), calls @ [(collection_id, length agent_runs)])"

text \<open>
  The directory before a run: \<open>processed\<close> already holds a file named \<open>history_1.json\<close>,
  left by an earlier run, and a file of another name.
\<close>

definition old_history_1 :: json_file where
  "old_history_1 = \<lparr>file_name = ''history_1.json'', loaded = Inr (JObj [])\<rparr>"

definition old_history_0 :: json_file where
  "old_history_0 = \<lparr>file_name = ''history_0.json'', loaded = Inr (JObj [])\<rparr>"

definition example_dirs :: directories where
  "example_dirs =
     \<lparr>data_dir = [history_1, history_2, config_file, history_3],
      processed_dir = [old_history_1, old_history_0]\<rparr>"

text \<open>A round with two deal spans, the first content beginning with a space.\<close>

definition two_deals_round :: json where
  "two_deals_round = JObj
     [(''agent'', JStr ''Alice''),
      (''full_answer'', JStr ''Either <DEAL> a:1</DEAL> or <DEAL>b:2</DEAL>!'')]"

text \<open>A round with three deal spans and a pair of tags in lower case.\<close>

definition three_deals_round :: json where
  "three_deals_round = JObj
     [(''agent'', JStr ''Alice''),
      (''full_answer'',
         JStr ''Offer: <DEAL> a:1, b:2</DEAL> or <deal>x</deal> <DEAL>a:2, b:1</DEAL>, else <DEAL>a:3</DEAL>.'')]"


subsection \<open>Backtracking\<close>

lemma first_down_Some:
  "first_down f m k = Some r \<Longrightarrow> \<exists>n. m \<le> n \<and> n \<le> k \<and> f n = Some r"
proof (induction k)
  case 0
  then show ?case by (auto split: if_splits)
next
  case (Suc k)
  show ?case
  proof (cases "f (Suc k)")
    case None
    with Suc.prems have "first_down f m k = Some r"
      by (simp split: if_splits)
    then obtain n where "m \<le> n" "n \<le> k" "f n = Some r"
      using Suc.IH by blast
    then show ?thesis by (intro exI [of _ n]) simp
  next
    case (Some a)
    with Suc.prems have "\<not> Suc k < m" "a = r"
      by (simp_all split: if_splits)
    with Some show ?thesis by (intro exI [of _ "Suc k"]) simp
  qed
qed

lemma first_down_top: "m \<le> k \<Longrightarrow> f k = Some r \<Longrightarrow> first_down f m k = Some r"
  by (cases k) auto

lemma first_up_Some:
  "first_up f n c = Some r \<Longrightarrow> \<exists>i. i < c \<and> f (n + i) = Some r \<and> (\<forall>j<i. f (n + j) = None)"
proof (induction c arbitrary: n)
  case 0
  then show ?case by simp
next
  case (Suc c)
  show ?case
  proof (cases "f n")
    case None
    with Suc.prems have "first_up f (Suc n) c = Some r" by simp
    then obtain i where i: "i < c" "f (Suc n + i) = Some r" "\<forall>j<i. f (Suc n + j) = None"
      using Suc.IH by blast
    have "\<forall>j<Suc i. f (n + j) = None"
    proof (intro allI impI)
      fix j assume "j < Suc i"
      then show "f (n + j) = None" using None i(3) by (cases j) auto
    qed
    with i show ?thesis by (intro exI [of _ "Suc i"]) simp
  next
    case (Some a)
    with Suc.prems show ?thesis by (intro exI [of _ 0]) simp
  qed
qed

lemma first_up_first:
  "i < c \<Longrightarrow> f (n + i) = Some r \<Longrightarrow> \<forall>j<i. f (n + j) = None \<Longrightarrow> first_up f n c = Some r"
proof (induction c arbitrary: n i)
  case 0
  then show ?case by simp
next
  case (Suc c)
  show ?case
  proof (cases i)
    case 0
    with Suc.prems show ?thesis by simp
  next
    case (Suc i')
    from Suc.prems(3) Suc have "f n = None" by (metis add.right_neutral zero_less_Suc)
    moreover have "first_up f (Suc n) c = Some r"
    proof (rule Suc.IH [of i'])
      show "i' < c" using Suc.prems(1) Suc by simp
      show "f (Suc n + i') = Some r" using Suc.prems(2) Suc by simp
      show "\<forall>j<i'. f (Suc n + j) = None"
      proof (intro allI impI)
        fix j assume "j < i'"
        then have "Suc j < i" using Suc by simp
        then have "f (n + Suc j) = None" using Suc.prems(3) by blast
        then show "f (Suc n + j) = None" by simp
      qed
    qed
    ultimately show ?thesis by simp
  qed
qed

lemma first_up_None:
  "first_up f n c = None \<Longrightarrow> i < c \<Longrightarrow> f (n + i) = None"
proof (induction c arbitrary: n i)
  case 0
  then show ?case by simp
next
  case (Suc c)
  from Suc.prems(1) have fn: "f n = None" and rest: "first_up f (Suc n) c = None"
    by (auto split: option.splits)
  show ?case
  proof (cases i)
    case 0
    then show ?thesis using fn by simp
  next
    case (Suc i')
    then have "i' < c" using Suc.prems(2) by simp
    from Suc.IH [OF rest this] show ?thesis using Suc by simp
  qed
qed

lemma rmatch_lit:
  "rmatch (lit t @ p) gs ge s = (if prefix t s then rmatch p gs ge (drop (length t) s) else None)"
proof (induction t arbitrary: s)
  case Nil
  then show ?case by (simp add: lit_def)
next
  case (Cons c t)
  show ?case
  proof (cases s)
    case Nil
    then show ?thesis by (simp add: lit_def)
  next
    case (Cons x xs)
    have "rmatch (lit t @ p) gs ge xs = (if prefix t xs then rmatch p gs ge (drop (length t) xs) else None)"
      by (rule Cons.IH)
    then show ?thesis using Cons by (simp add: lit_def)
  qed
qed

lemma rmatch_lit_end:
  "rmatch (lit t) gs ge s = (if prefix t s then Some (take (length gs - length ge) gs, drop (length t) s) else None)"
  using rmatch_lit [of t "[]" gs ge s] by simp

subsection \<open>Searching for a tag pair\<close>

lemma no_prefix_before:
  assumes c: "c \<notin> set t'" and sub: "\<not> sublist (c # t') pre" and j: "j < length pre"
  shows "\<not> prefix (c # t') (drop j (pre @ c # rest))"
proof
  assume p: "prefix (c # t') (drop j (pre @ c # rest))"
  define d where "d = drop j pre"
  define tg where "tg = c # t'"
  have d: "d \<noteq> []" "pre = take j pre @ d" using j by (simp_all add: d_def)
  from p j have "prefix tg (d @ c # rest)" by (simp add: d_def tg_def)
  then obtain zs where zs: "d @ c # rest = tg @ zs" by (auto simp: prefix_def)
  show False
  proof (cases "length tg \<le> length d")
    case True
    have "take (length tg) (d @ c # rest) = tg" using zs by simp
    then have "take (length tg) d = tg" using True by simp
    then have "d = tg @ drop (length tg) d" by (metis append_take_drop_id)
    then have "pre = take j pre @ tg @ drop (length tg) d" using d(2) by metis
    then have "sublist tg pre" unfolding sublist_def by blast
    with sub show False by (simp add: tg_def)
  next
    case False
    then have lt: "length d < length tg" by simp
    have "(d @ c # rest) ! length d = c" by simp
    then have "(tg @ zs) ! length d = c" using zs by simp
    then have "tg ! length d = c" using lt by (simp add: nth_append)
    moreover have "0 < length d" using d(1) by simp
    ultimately have "t' ! (length d - 1) = c" by (cases "length d") (auto simp: tg_def)
    moreover have "length d - 1 < length t'" using lt d(1) by (cases d) (auto simp: tg_def)
    ultimately have "c \<in> set t'" by (metis nth_mem)
    with c show False by contradiction
  qed
qed

lemma search_hit: "match_at p s = Some r \<Longrightarrow> search p s = Some r"
  by (cases s) auto

lemma search_skip:
  "(\<And>j. j < length pre \<Longrightarrow> match_at p (drop j (pre @ s)) = None) \<Longrightarrow> search p (pre @ s) = search p s"
proof (induction pre)
  case Nil
  then show ?case by simp
next
  case (Cons x pre)
  have "match_at p (drop 0 ((x # pre) @ s)) = None" by (rule Cons.prems) simp
  then have here: "match_at p (x # pre @ s) = None" by simp
  have "search p (pre @ s) = search p s"
  proof (rule Cons.IH)
    fix j assume "j < length pre"
    then have "match_at p (drop (Suc j) ((x # pre) @ s)) = None" by (intro Cons.prems) simp
    then show "match_at p (drop j (pre @ s)) = None" by simp
  qed
  with here show ?case by simp
qed

lemma search_Some:
  "search p s = Some r \<Longrightarrow> \<exists>pre t. s = pre @ t \<and> match_at p t = Some r"
proof (induction s)
  case Nil
  then show ?case by simp
next
  case (Cons x xs)
  show ?case
  proof (cases "match_at p (x # xs)")
    case None
    with Cons.prems have "search p xs = Some r" by simp
    then obtain pre t where "xs = pre @ t" "match_at p t = Some r" using Cons.IH by blast
    then have "x # xs = (x # pre) @ t \<and> match_at p t = Some r" by simp
    then show ?thesis by blast
  next
    case (Some a)
    with Cons.prems have "x # xs = [] @ (x # xs) \<and> match_at p (x # xs) = Some r" by simp
    then show ?thesis by blast
  qed
qed

lemma takeWhile_Dot: "takeWhile (in_class Dot) t = t"
  by (induction t) simp_all

lemma tag_match_unfold:
  "match_at (lit op @ [GroupOpen, Lazy Dot 0, GroupClose] @ lit cl) (op @ t) =
     first_up (\<lambda>n. rmatch (lit cl) t (drop n t) (drop n t)) 0 (Suc (length t))"
  by (simp add: match_at_def rmatch_lit takeWhile_Dot del: first_up.simps)

lemma tag_match_Some:
  assumes "match_at (lit op @ [GroupOpen, Lazy Dot 0, GroupClose] @ lit cl) s = Some (g, rest)"
  shows "s = op @ g @ cl @ rest"
proof -
  from assms have "prefix op s"
    by (auto simp: match_at_def rmatch_lit split: if_splits)
  then obtain t where s: "s = op @ t" by (auto simp: prefix_def)
  define f where "f = (\<lambda>n. rmatch (lit cl) t (drop n t) (drop n t))"
  from assms have fu: "first_up f 0 (Suc (length t)) = Some (g, rest)"
    unfolding s tag_match_unfold f_def .
  from first_up_Some [OF fu] obtain i where i: "i < Suc (length t)" "f i = Some (g, rest)"
    by auto
  from i(2) have pc: "prefix cl (drop i t)" and g: "g = take (length t - length (drop i t)) t"
    and r: "rest = drop (length cl) (drop i t)"
    unfolding f_def rmatch_lit_end by (simp_all split: if_splits del: drop_drop)
  from i(1) g have g': "g = take i t" by simp
  from pc obtain zs where zs: "drop i t = cl @ zs" by (auto simp: prefix_def)
  with r have "drop i t = cl @ rest" by simp
  with g' have "t = g @ cl @ rest" by (metis append_take_drop_id)
  with s show ?thesis by simp
qed

lemma tag_match_first:
  assumes "\<And>n. n < length X \<Longrightarrow> \<not> prefix cl (drop n (X @ cl @ post))"
  shows "match_at (lit op @ [GroupOpen, Lazy Dot 0, GroupClose] @ lit cl) (op @ X @ cl @ post)
           = Some (X, post)"
proof -
  define t where "t = X @ cl @ post"
  define f where "f = (\<lambda>n. rmatch (lit cl) t (drop n t) (drop n t))"
  have "first_up f 0 (Suc (length t)) = Some (X, post)"
  proof (rule first_up_first [of "length X"])
    show "length X < Suc (length t)" by (simp add: t_def)
    show "f (0 + length X) = Some (X, post)" by (simp add: f_def rmatch_lit_end t_def)
    show "\<forall>j<length X. f (0 + j) = None"
      using assms by (simp add: f_def rmatch_lit_end t_def)
  qed
  then show ?thesis
    unfolding tag_match_unfold f_def t_def by simp
qed

lemma tag_match_prefix:
  "match_at (lit op @ p) s = Some r \<Longrightarrow> prefix op s"
  by (auto simp: match_at_def rmatch_lit split: if_splits)

lemma tag_search_first:
  assumes op: "op = c # op'" "c \<notin> set op'" and cl: "cl = c # cl'" "c \<notin> set cl'"
    and pre: "\<not> sublist op pre" and X: "\<not> sublist cl X"
  shows "search (lit op @ [GroupOpen, Lazy Dot 0, GroupClose] @ lit cl) (pre @ op @ X @ cl @ post)
           = Some (X, post)"
proof -
  let ?p = "lit op @ [GroupOpen, Lazy Dot 0, GroupClose] @ lit cl"
  have "search ?p (pre @ op @ X @ cl @ post) = search ?p (op @ X @ cl @ post)"
  proof (rule search_skip)
    fix j assume j: "j < length pre"
    have "\<not> prefix op (drop j (pre @ op @ X @ cl @ post))"
      using no_prefix_before [of c op' pre j "op' @ X @ cl @ post"] op pre j by simp
    then show "match_at ?p (drop j (pre @ op @ X @ cl @ post)) = None"
      using tag_match_prefix [of op] by (metis not_Some_eq)
  qed
  also have "\<dots> = Some (X, post)"
  proof (rule search_hit, rule tag_match_first)
    fix n assume "n < length X"
    then show "\<not> prefix cl (drop n (X @ cl @ post))"
      using no_prefix_before [of c cl' X n "cl' @ post"] cl X by simp
  qed
  finally show ?thesis .
qed

lemma tag_search_Some:
  assumes "search (lit op @ [GroupOpen, Lazy Dot 0, GroupClose] @ lit cl) s = Some (g, rest)"
  shows "\<exists>pre. s = pre @ op @ g @ cl @ rest"
  using search_Some [OF assms] tag_match_Some by blast

lemma scratchpad_search_first:
  assumes "\<not> sublist ''<SCRATCHPAD>'' pre" and "\<not> sublist ''</SCRATCHPAD>'' X"
  shows "search scratchpad_pattern (pre @ ''<SCRATCHPAD>'' @ X @ ''</SCRATCHPAD>'' @ post) = Some (X, post)"
  unfolding scratchpad_pattern_def
  by (rule tag_search_first [where c = "CHR ''<''" and op' = "''SCRATCHPAD>''"
        and cl' = "''/SCRATCHPAD>''"]) (use assms in simp_all)

lemma answer_search_first:
  assumes "\<not> sublist ''<ANSWER>'' pre" and "\<not> sublist ''</ANSWER>'' X"
  shows "search answer_pattern (pre @ ''<ANSWER>'' @ X @ ''</ANSWER>'' @ post) = Some (X, post)"
  unfolding answer_pattern_def
  by (rule tag_search_first [where c = "CHR ''<''" and op' = "''ANSWER>''"
        and cl' = "''/ANSWER>''"]) (use assms in simp_all)

lemma first_span_exists:
  assumes "s = pre @ op @ X @ cl @ post" and "op \<noteq> []" and "cl \<noteq> []"
  shows "\<exists>pre' X' post'. s = pre' @ op @ X' @ cl @ post' \<and> \<not> sublist op pre' \<and> \<not> sublist cl X'"
proof -
  define P where "P n \<longleftrightarrow> (\<exists>p x q. s = p @ op @ x @ cl @ q \<and> length p = n)" for n
  define n where "n = (LEAST n. P n)"
  have "P (length pre)" unfolding P_def using assms by blast
  then have Pn: "P n" unfolding n_def by (rule LeastI)
  have nmin: "n \<le> m" if "P m" for m unfolding n_def using that by (rule Least_le)
  from Pn obtain p x0 q0 where p: "s = p @ op @ x0 @ cl @ q0" "length p = n"
    unfolding P_def by blast
  define Q where "Q k \<longleftrightarrow> (\<exists>x q. s = p @ op @ x @ cl @ q \<and> length x = k)" for k
  define k where "k = (LEAST k. Q k)"
  have "Q (length x0)" unfolding Q_def using p(1) by blast
  then have Qk: "Q k" unfolding k_def by (rule LeastI)
  have kmin: "k \<le> m" if "Q m" for m unfolding k_def using that by (rule Least_le)
  from Qk obtain x q where x: "s = p @ op @ x @ cl @ q" "length x = k"
    unfolding Q_def by blast
  have "\<not> sublist op p"
  proof
    assume "sublist op p"
    then obtain a b where ab: "p = a @ op @ b" unfolding sublist_def by blast
    then have "s = a @ op @ (b @ op @ x) @ cl @ q" using x(1) by simp
    then have "P (length a)" unfolding P_def by blast
    from nmin [OF this] show False using p(2) ab assms(2) by (cases op) auto
  qed
  moreover have "\<not> sublist cl x"
  proof
    assume "sublist cl x"
    then obtain a b where ab: "x = a @ cl @ b" unfolding sublist_def by blast
    then have "s = p @ op @ a @ cl @ (b @ cl @ q)" using x(1) by simp
    then have "Q (length a)" unfolding Q_def by blast
    from kmin [OF this] show False using x(2) ab assms(3) by (cases cl) auto
  qed
  ultimately show ?thesis using x(1) by blast
qed

subsection \<open>The deal pattern\<close>

lemma not_space_lt: "\<not> isspace CHR ''<''"
  by (simp add: isspace_def)

lemma take_takeWhile:
  "n \<le> length (takeWhile P u) \<Longrightarrow> take n u = take n (takeWhile P u)"
  by (metis append_eq_conv_conj takeWhile_dropWhile_id take_append diff_is_0_eq take_0 append_Nil2)

lemma deal_match_unfold:
  "match_at deal_pattern (''<DEAL>'' @ t) =
     first_down (\<lambda>n1.
       first_down (\<lambda>n2.
         first_down (\<lambda>n3.
             rmatch (lit ''</DEAL>'') (drop n1 t) (drop n2 (drop n1 t))
               (drop n3 (drop n2 (drop n1 t))))
           0 (length (takeWhile isspace (drop n2 (drop n1 t)))))
         1 (length (takeWhile (\<lambda>x. x \<noteq> CHR ''<'') (drop n1 t))))
       0 (length (takeWhile isspace t))"
proof -
  have eq: "in_class Space = isspace" "in_class (NotChr c) = (\<lambda>x. x \<noteq> c)" for c
    by (rule ext, simp)+
  have "rmatch deal_pattern s s (''<DEAL>'' @ t) = rmatch
     ([Greedy Space 0, GroupOpen, Greedy (NotChr CHR ''<'') 1, GroupClose, Greedy Space 0]
       @ lit ''</DEAL>'') s s t" for s
    unfolding deal_pattern_def by (subst rmatch_lit) simp
  then show ?thesis
    unfolding match_at_def by (simp add: eq del: drop_drop first_down.simps)
qed

lemma deal_match_prefix: "match_at deal_pattern s = Some r \<Longrightarrow> prefix ''<DEAL>'' s"
  unfolding deal_pattern_def by (rule tag_match_prefix)

lemma deal_match_Some:
  assumes "match_at deal_pattern s = Some (g, rest)"
  shows "g \<noteq> [] \<and> CHR ''<'' \<notin> set g \<and> length rest < length s"
proof -
  from deal_match_prefix [OF assms] obtain t where s: "s = ''<DEAL>'' @ t"
    by (auto simp: prefix_def)
  from assms [unfolded s deal_match_unfold] obtain n1 where
    a: "first_down (\<lambda>n2.
         first_down (\<lambda>n3.
             rmatch (lit ''</DEAL>'') (drop n1 t) (drop n2 (drop n1 t))
               (drop n3 (drop n2 (drop n1 t))))
           0 (length (takeWhile isspace (drop n2 (drop n1 t)))))
         1 (length (takeWhile (\<lambda>x. x \<noteq> CHR ''<'') (drop n1 t))) = Some (g, rest)"
    by (blast dest: first_down_Some)
  define u where "u = drop n1 t"
  from a obtain n2 where n2: "1 \<le> n2" "n2 \<le> length (takeWhile (\<lambda>x. x \<noteq> CHR ''<'') u)"
    and b: "first_down (\<lambda>n3. rmatch (lit ''</DEAL>'') u (drop n2 u) (drop n3 (drop n2 u)))
           0 (length (takeWhile isspace (drop n2 u))) = Some (g, rest)"
    unfolding u_def [symmetric] by (blast dest: first_down_Some)
  from b obtain n3 where c: "rmatch (lit ''</DEAL>'') u (drop n2 u) (drop n3 (drop n2 u)) = Some (g, rest)"
    by (blast dest: first_down_Some)
  have len: "n2 \<le> length u"
    using n2(2) length_takeWhile_le [of "\<lambda>x. x \<noteq> CHR ''<''" u] by linarith
  from c have pc: "prefix ''</DEAL>'' (drop n3 (drop n2 u))"
    and g: "g = take (length u - length (drop n2 u)) u"
    and r: "rest = drop (length ''</DEAL>'') (drop n3 (drop n2 u))"
    unfolding rmatch_lit_end by (simp_all split: if_splits del: drop_drop)
  from g len have g': "g = take n2 u" by simp
  then have g'': "g = take n2 (takeWhile (\<lambda>x. x \<noteq> CHR ''<'') u)"
    using take_takeWhile [OF n2(2)] by simp
  have "g \<noteq> []" using g' n2(1) len by (cases u) auto
  moreover have "CHR ''<'' \<notin> set g"
  proof
    assume "CHR ''<'' \<in> set g"
    then have "CHR ''<'' \<in> set (takeWhile (\<lambda>x. x \<noteq> CHR ''<'') u)"
      unfolding g'' by (rule in_set_takeD)
    then show False by (auto dest: set_takeWhileD)
  qed
  moreover have "length rest < length s"
    unfolding r s u_def by simp
  ultimately show ?thesis by blast
qed

lemma deal_match_content:
  assumes lt: "CHR ''<'' \<notin> set A" and ns: "\<exists>x\<in>set A. \<not> isspace x"
  shows "match_at deal_pattern (''<DEAL>'' @ A @ ''</DEAL>'' @ rest)
           = Some (dropWhile isspace A, rest)"
proof -
  define t where "t = A @ ''</DEAL>'' @ rest"
  define A' where "A' = dropWhile isspace A"
  define n1 where "n1 = length (takeWhile isspace A)"
  have A: "A = takeWhile isspace A @ A'" by (simp add: A'_def)
  have A'ne: "A' \<noteq> []" using ns by (auto simp: A'_def)
  have A'lt: "CHR ''<'' \<notin> set A'" using lt by (auto simp: A'_def dest: set_dropWhileD)
  from ns obtain x where x: "x \<in> set A" "\<not> isspace x" by blast
  have k1: "length (takeWhile isspace t) = n1"
    unfolding t_def n1_def using takeWhile_append1 [of x A isspace] x by simp
  have u: "drop n1 t = A' @ ''</DEAL>'' @ rest"
    unfolding t_def n1_def A'_def using length_takeWhile_le [of isspace A]
    by (simp add: dropWhile_eq_drop)
  have k2: "length (takeWhile (\<lambda>x. x \<noteq> CHR ''<'') (A' @ ''</DEAL>'' @ rest)) = length A'"
    using A'lt by (subst takeWhile_append2) auto
  have k3: "length (takeWhile isspace (''</DEAL>'' @ rest)) = 0"
    by (simp add: not_space_lt)
  have inner: "first_down (\<lambda>n3.
             rmatch (lit ''</DEAL>'') (drop n1 t) (drop (length A') (drop n1 t))
               (drop n3 (drop (length A') (drop n1 t))))
           0 (length (takeWhile isspace (drop (length A') (drop n1 t)))) = Some (A', rest)"
    unfolding u by (simp add: rmatch_lit_end not_space_lt)
  have mid: "first_down (\<lambda>n2.
         first_down (\<lambda>n3.
             rmatch (lit ''</DEAL>'') (drop n1 t) (drop n2 (drop n1 t))
               (drop n3 (drop n2 (drop n1 t))))
           0 (length (takeWhile isspace (drop n2 (drop n1 t)))))
         1 (length (takeWhile (\<lambda>x. x \<noteq> CHR ''<'') (drop n1 t))) = Some (A', rest)"
  proof (rule first_down_top)
    show "1 \<le> length (takeWhile (\<lambda>x. x \<noteq> CHR ''<'') (drop n1 t))"
      unfolding u k2 using A'ne by (cases A') auto
    show "first_down (\<lambda>n3.
             rmatch (lit ''</DEAL>'') (drop n1 t)
               (drop (length (takeWhile (\<lambda>x. x \<noteq> CHR ''<'') (drop n1 t))) (drop n1 t))
               (drop n3 (drop (length (takeWhile (\<lambda>x. x \<noteq> CHR ''<'') (drop n1 t))) (drop n1 t))))
           0 (length (takeWhile isspace
               (drop (length (takeWhile (\<lambda>x. x \<noteq> CHR ''<'') (drop n1 t))) (drop n1 t))))
          = Some (A', rest)"
      using inner unfolding u k2 .
  qed
  have "match_at deal_pattern (''<DEAL>'' @ t) = Some (A', rest)"
    unfolding deal_match_unfold
  proof (rule first_down_top)
    show "0 \<le> length (takeWhile isspace t)" by simp
    show "first_down (\<lambda>n2.
         first_down (\<lambda>n3.
             rmatch (lit ''</DEAL>'') (drop (length (takeWhile isspace t)) t)
               (drop n2 (drop (length (takeWhile isspace t)) t))
               (drop n3 (drop n2 (drop (length (takeWhile isspace t)) t))))
           0 (length (takeWhile isspace (drop n2 (drop (length (takeWhile isspace t)) t)))))
         1 (length (takeWhile (\<lambda>x. x \<noteq> CHR ''<'') (drop (length (takeWhile isspace t)) t)))
        = Some (A', rest)"
      using mid unfolding k1 .
  qed
  then show ?thesis unfolding t_def A'_def .
qed

lemma findall_hit:
  assumes "match_at deal_pattern s = Some (g, rest)"
  shows "findall deal_pattern s = g # findall deal_pattern rest"
  using assms deal_match_Some [OF assms] by (subst findall.simps) simp

lemma findall_miss:
  assumes "match_at p (x # xs) = None"
  shows "findall p (x # xs) = findall p xs"
  using assms by (subst findall.simps) simp

lemma findall_deal_Nil: "findall deal_pattern [] = []"
proof -
  have "match_at deal_pattern [] = None"
    using deal_match_prefix [of "[]"] by (cases "match_at deal_pattern []") auto
  then show ?thesis by (subst findall.simps) simp
qed

lemma findall_skip:
  "(\<And>j. j < length pre \<Longrightarrow> \<not> prefix ''<DEAL>'' (drop j (pre @ s)))
     \<Longrightarrow> findall deal_pattern (pre @ s) = findall deal_pattern s"
proof (induction pre)
  case Nil
  then show ?case by simp
next
  case (Cons x pre)
  have "\<not> prefix ''<DEAL>'' (drop 0 ((x # pre) @ s))" by (rule Cons.prems) simp
  then have "match_at deal_pattern (x # pre @ s) = None"
    using deal_match_prefix [of "x # pre @ s"] by (cases "match_at deal_pattern (x # pre @ s)") auto
  then have "findall deal_pattern ((x # pre) @ s) = findall deal_pattern (pre @ s)"
    by (simp add: findall_miss)
  also have "\<dots> = findall deal_pattern s"
  proof (rule Cons.IH)
    fix j assume "j < length pre"
    then have "\<not> prefix ''<DEAL>'' (drop (Suc j) ((x # pre) @ s))" by (intro Cons.prems) simp
    then show "\<not> prefix ''<DEAL>'' (drop j (pre @ s))" by simp
  qed
  finally show ?case .
qed

lemma no_prefix_inside:
  assumes "\<not> sublist t pre" and "j < length pre"
  shows "\<not> prefix t (drop j pre)"
proof
  assume "prefix t (drop j pre)"
  then obtain zs where "drop j pre = t @ zs" by (auto simp: prefix_def)
  then have "pre = take j pre @ t @ zs" by (metis append_take_drop_id)
  then have "sublist t pre" unfolding sublist_def by blast
  with assms(1) show False by contradiction
qed

lemma findall_no_tag:
  assumes "\<not> sublist ''<DEAL>'' s"
  shows "findall deal_pattern s = []"
proof -
  have "findall deal_pattern (s @ []) = findall deal_pattern []"
  proof (rule findall_skip)
    fix j assume "j < length s"
    then show "\<not> prefix ''<DEAL>'' (drop j (s @ []))"
      using no_prefix_inside [OF assms] by simp
  qed
  then show ?thesis by (simp add: findall_deal_Nil)
qed

lemma findall_skip_to_tag:
  assumes "\<not> sublist ''<DEAL>'' pre"
  shows "findall deal_pattern (pre @ ''<DEAL>'' @ s) = findall deal_pattern (''<DEAL>'' @ s)"
proof (rule findall_skip)
  fix j assume "j < length pre"
  then show "\<not> prefix ''<DEAL>'' (drop j (pre @ ''<DEAL>'' @ s))"
    using no_prefix_before [of "CHR ''<''" "''DEAL>''" pre j "''DEAL>'' @ s"] assms by simp
qed


lemma findall_two_spans:
  assumes pre: "\<not> sublist ''<DEAL>'' pre" and mid: "\<not> sublist ''<DEAL>'' mid"
    and post: "\<not> sublist ''<DEAL>'' post"
    and A: "CHR ''<'' \<notin> set A" "\<exists>x\<in>set A. \<not> isspace x"
    and B: "CHR ''<'' \<notin> set B" "\<exists>x\<in>set B. \<not> isspace x"
  shows "findall deal_pattern
           (pre @ ''<DEAL>'' @ A @ ''</DEAL>'' @ mid @ ''<DEAL>'' @ B @ ''</DEAL>'' @ post)
         = [dropWhile isspace A, dropWhile isspace B]"
proof -
  let ?s2 = "''<DEAL>'' @ B @ ''</DEAL>'' @ post"
  have "findall deal_pattern (pre @ ''<DEAL>'' @ A @ ''</DEAL>'' @ mid @ ?s2)
      = findall deal_pattern (''<DEAL>'' @ A @ ''</DEAL>'' @ mid @ ?s2)"
    by (rule findall_skip_to_tag [OF pre])
  also have "\<dots> = dropWhile isspace A # findall deal_pattern (mid @ ?s2)"
    by (rule findall_hit, rule deal_match_content [OF A])
  also have "findall deal_pattern (mid @ ?s2) = findall deal_pattern ?s2"
    by (rule findall_skip_to_tag [OF mid])
  also have "\<dots> = dropWhile isspace B # findall deal_pattern post"
    by (rule findall_hit, rule deal_match_content [OF B])
  also have "findall deal_pattern post = []"
    by (rule findall_no_tag [OF post])
  finally show ?thesis .
qed

subsection \<open>Results of \<open>_parse_round\<close>\<close>

lemma and_then_Inr: "and_then m f = Inr y \<longleftrightarrow> (\<exists>x. m = Inr x \<and> f x = Inr y)"
  by (cases m) auto

lemma dict_get_Inr: "dict_get d k v = Inr y \<Longrightarrow> \<exists>kvs. d = JObj kvs"
  by (cases d) auto

lemma as_text_Inr: "as_text j = Inr s \<longleftrightarrow> j = JStr s"
  by (cases j) auto

lemma parse_round_Inr:
  assumes "parse_round config round_data round_idx = Inr pr"
  shows "\<exists>kvs. round_data = JObj kvs
     \<and> dict_get round_data ''full_answer'' (JStr []) = Inr (JStr (full_answer pr))
     \<and> deals_proposed pr = findall deal_pattern (full_answer pr)
     \<and> scratchpad_reasoning pr =
         (case search scratchpad_pattern (full_answer pr) of
            Some (g, rest) \<Rightarrow> Some (strip g) | None \<Rightarrow> None)
     \<and> has_scratchpad pr = (scratchpad_reasoning pr \<noteq> None)
     \<and> has_deal pr = (deals_proposed pr \<noteq> [])
     \<and> public_answer pr =
         (case search answer_pattern (full_answer pr) of
            Some (g, rest) \<Rightarrow> JStr (strip g)
          | None \<Rightarrow> (case map_of kvs ''public_answer'' of Some v \<Rightarrow> v | None \<Rightarrow> JStr []))
     \<and> round_index pr = round_idx
     \<and> message_length pr = length (full_answer pr)"
proof -
  let ?fa_get = "dict_get round_data ''full_answer'' (JStr [])"
  from assms obtain ag where ag: "dict_get round_data ''agent'' (JStr []) = Inr ag"
    unfolding parse_round_def and_then_Inr by blast
  then obtain kvs where kvs: "round_data = JObj kvs" using dict_get_Inr by blast
  from assms ag obtain fa where fa: "?fa_get = Inr (JStr fa)"
    unfolding parse_round_def and_then_Inr as_text_Inr by auto
  define pa where "pa = (case search answer_pattern fa of
       Some (g, rest) \<Rightarrow> Inr (JStr (strip g))
     | None \<Rightarrow> dict_get round_data ''public_answer'' (JStr []))"
  from assms ag fa obtain pav where pav: "pa = Inr pav"
    unfolding parse_round_def and_then_Inr Let_def pa_def by auto
  from assms ag fa pav obtain ac where ac: "config_get config ag = Inr ac"
    unfolding parse_round_def and_then_Inr Let_def pa_def by auto
  from assms ag fa pav ac obtain pm where pm: "dict_get round_data ''prompt'' (JStr []) = Inr pm"
    unfolding parse_round_def and_then_Inr Let_def pa_def by auto
  from assms ag fa pav ac pm have pr:
    "pr = \<lparr>round_index = round_idx, agent = ag, agent_cfg = ac, prompt = pm,
          full_answer = fa, public_answer = pav,
          deals_proposed = findall deal_pattern fa,
          scratchpad_reasoning =
            (case search scratchpad_pattern fa of Some (g, rest) \<Rightarrow> Some (strip g) | None \<Rightarrow> None),
          message_length = length fa,
          has_scratchpad =
            ((case search scratchpad_pattern fa of Some (g, rest) \<Rightarrow> Some (strip g) | None \<Rightarrow> None) \<noteq> None),
          has_deal = (length (findall deal_pattern fa) > 0)\<rparr>"
    unfolding parse_round_def Let_def pa_def by simp
  have "pav = (case search answer_pattern fa of
            Some (g, rest) \<Rightarrow> JStr (strip g)
          | None \<Rightarrow> (case map_of kvs ''public_answer'' of Some v \<Rightarrow> v | None \<Rightarrow> JStr []))"
    using pav unfolding pa_def kvs by (auto split: option.splits)
  with pr fa kvs show ?thesis by simp
qed

subsection \<open>The example rounds, parsed\<close>

lemma example_round_parsed:
  "parse_round Map.empty example_round 0 =
     Inr \<lparr>round_index = 0, agent = JStr ''Alice'', agent_cfg = None,
          prompt = JStr ''Your turn.'',
          full_answer = ''Hi <SCRATCHPAD> plan\<newline>B </SCRATCHPAD><ANSWER> I offer 5 </ANSWER><DEAL> a:1, b:2</DEAL> or <DEAL>a:2, b:1 </DEAL>'',
          public_answer = JStr ''I offer 5'',
          deals_proposed = [''a:1, b:2'', ''a:2, b:1 ''],
          scratchpad_reasoning = Some ''plan\<newline>B'', message_length = 112,
          has_scratchpad = True, has_deal = True\<rparr>"
  by code_simp

lemma plain_round_parsed:
  "parse_round Map.empty plain_round 0 =
     Inr \<lparr>round_index = 0, agent = JStr ''Bob'', agent_cfg = None,
          prompt = JStr ''Your turn.'',
          full_answer = ''I will think about it.'',
          public_answer = JStr ''Let me think.'', deals_proposed = [],
          scratchpad_reasoning = None, message_length = 22,
          has_scratchpad = False, has_deal = False\<rparr>"
  by code_simp

lemma bad_deals_round_parsed:
  "parse_round Map.empty bad_deals_round 0 =
     Inr \<lparr>round_index = 0, agent = JStr ''Bob'', agent_cfg = None,
          prompt = JStr [],
          full_answer = ''<DEAL></DEAL> and <DEAL>a<b</DEAL>'',
          public_answer = JStr [], deals_proposed = [],
          scratchpad_reasoning = None, message_length = 34,
          has_scratchpad = False, has_deal = False\<rparr>"
  by code_simp

lemma no_span_without_open_tag:
  assumes "\<not> sublist op s"
  shows "\<nexists>pre X post. s = pre @ op @ X @ cl @ post"
  using assms unfolding sublist_def by blast

subsection \<open>Scratchpad extraction\<close>

text \<open>
  Claim C5. Let \<open>_parse_round\<close> return \<open>pr\<close> for a round; \<open>full_answer pr\<close> is then the
  round's \<open>full_answer\<close> field (or the empty string when the field is absent). If
  \<open><SCRATCHPAD>X</SCRATCHPAD>\<close> is the first such span of the full answer (no opening
  tag before it, no closing tag inside \<open>X\<close>, which may hold any characters, newlines
  included), then \<open>scratchpad_reasoning\<close> is \<open>X\<close> stripped of surrounding whitespace.
  \<open>has_scratchpad\<close> is true exactly when the full answer contains some span
  \<open><SCRATCHPAD>...</SCRATCHPAD>\<close>, and without one \<open>scratchpad_reasoning\<close> is null.
\<close>

theorem scratchpad_extraction:
  assumes "parse_round config round_data round_idx = Inr pr"
  shows "dict_get round_data ''full_answer'' (JStr []) = Inr (JStr (full_answer pr))
    \<and> (\<forall>pre X post.
          full_answer pr = pre @ ''<SCRATCHPAD>'' @ X @ ''</SCRATCHPAD>'' @ post
          \<and> \<not> sublist ''<SCRATCHPAD>'' pre \<and> \<not> sublist ''</SCRATCHPAD>'' X
          \<longrightarrow> scratchpad_reasoning pr = Some (strip X))
    \<and> (has_scratchpad pr \<longleftrightarrow>
          (\<exists>pre X post. full_answer pr = pre @ ''<SCRATCHPAD>'' @ X @ ''</SCRATCHPAD>'' @ post))
    \<and> ((\<nexists>pre X post. full_answer pr = pre @ ''<SCRATCHPAD>'' @ X @ ''</SCRATCHPAD>'' @ post)
          \<longrightarrow> scratchpad_reasoning pr = None)"
proof -
  let ?span = "\<exists>pre X post. full_answer pr = pre @ ''<SCRATCHPAD>'' @ X @ ''</SCRATCHPAD>'' @ post"
  from parse_round_Inr [OF assms]
  have fa: "dict_get round_data ''full_answer'' (JStr []) = Inr (JStr (full_answer pr))"
    and sp: "scratchpad_reasoning pr =
         (case search scratchpad_pattern (full_answer pr) of
            Some (g, rest) \<Rightarrow> Some (strip g) | None \<Rightarrow> None)"
    and hs: "has_scratchpad pr = (scratchpad_reasoning pr \<noteq> None)"
    by auto
  have found: "scratchpad_reasoning pr = Some (strip X)"
    if "full_answer pr = pre @ ''<SCRATCHPAD>'' @ X @ ''</SCRATCHPAD>'' @ post"
      and "\<not> sublist ''<SCRATCHPAD>'' pre" and "\<not> sublist ''</SCRATCHPAD>'' X" for pre X post
    using scratchpad_search_first [OF that(2,3), of post] that(1) sp by simp
  have has: "has_scratchpad pr" if ?span
  proof -
    from that obtain pre X post
      where "full_answer pr = pre @ ''<SCRATCHPAD>'' @ X @ ''</SCRATCHPAD>'' @ post" by blast
    from first_span_exists [OF this] obtain pre' X' post'
      where "full_answer pr = pre' @ ''<SCRATCHPAD>'' @ X' @ ''</SCRATCHPAD>'' @ post'"
        and "\<not> sublist ''<SCRATCHPAD>'' pre'" and "\<not> sublist ''</SCRATCHPAD>'' X'"
      by auto
    from found [OF this] hs show ?thesis by simp
  qed
  have absent: "scratchpad_reasoning pr = None" if no: "\<not> ?span"
  proof (cases "search scratchpad_pattern (full_answer pr)")
    case None
    with sp show ?thesis by simp
  next
    case (Some r)
    obtain g rest where "r = (g, rest)" by (cases r)
    with Some have "\<exists>pre. full_answer pr = pre @ ''<SCRATCHPAD>'' @ g @ ''</SCRATCHPAD>'' @ rest"
      unfolding scratchpad_pattern_def by (intro tag_search_Some) simp
    with no show ?thesis by blast
  qed
  have "has_scratchpad pr \<longleftrightarrow> ?span" using has absent hs by blast
  with fa found absent show ?thesis by blast
qed

theorem scratchpad_extraction_witness:
  "(\<exists>pr. parse_round Map.empty example_round 0 = Inr pr
      \<and> full_answer pr = ''Hi '' @ ''<SCRATCHPAD>'' @ '' plan\<newline>B '' @ ''</SCRATCHPAD>''
            @ ''<ANSWER> I offer 5 </ANSWER><DEAL> a:1, b:2</DEAL> or <DEAL>a:2, b:1 </DEAL>''
      \<and> scratchpad_reasoning pr = Some ''plan\<newline>B'' \<and> has_scratchpad pr)
   \<and> (\<exists>pr. parse_round Map.empty plain_round 0 = Inr pr
      \<and> scratchpad_reasoning pr = None \<and> \<not> has_scratchpad pr)"
proof -
  let ?post = "''<ANSWER> I offer 5 </ANSWER><DEAL> a:1, b:2</DEAL> or <DEAL>a:2, b:1 </DEAL>''"
  obtain pr where pr: "parse_round Map.empty example_round 0 = Inr pr"
    and fa: "full_answer pr = ''Hi '' @ ''<SCRATCHPAD>'' @ '' plan\<newline>B '' @ ''</SCRATCHPAD>'' @ ?post"
    using example_round_parsed by simp
  have a: "\<not> sublist ''<SCRATCHPAD>'' ''Hi ''" by code_simp
  have b: "\<not> sublist ''</SCRATCHPAD>'' '' plan\<newline>B ''" by code_simp
  have c: "strip '' plan\<newline>B '' = ''plan\<newline>B''" by code_simp
  from scratchpad_extraction [OF pr] fa a b
  have "scratchpad_reasoning pr = Some (strip '' plan\<newline>B '')" and "has_scratchpad pr"
    by blast+
  with pr fa c have first: "\<exists>pr. parse_round Map.empty example_round 0 = Inr pr
      \<and> full_answer pr = ''Hi '' @ ''<SCRATCHPAD>'' @ '' plan\<newline>B '' @ ''</SCRATCHPAD>'' @ ?post
      \<and> scratchpad_reasoning pr = Some ''plan\<newline>B'' \<and> has_scratchpad pr"
    by auto
  obtain pr' where pr': "parse_round Map.empty plain_round 0 = Inr pr'"
    and fa': "full_answer pr' = ''I will think about it.''"
    using plain_round_parsed by simp
  have d: "\<not> sublist ''<SCRATCHPAD>'' ''I will think about it.''" by code_simp
  from scratchpad_extraction [OF pr'] no_span_without_open_tag [OF d, of "''</SCRATCHPAD>''"] fa'
  have "scratchpad_reasoning pr' = None" and "\<not> has_scratchpad pr'"
    by metis+
  with pr' have "\<exists>pr. parse_round Map.empty plain_round 0 = Inr pr
      \<and> scratchpad_reasoning pr = None \<and> \<not> has_scratchpad pr"
    by blast
  with first show ?thesis by blast
qed

subsection \<open>Public-answer precedence\<close>

text \<open>
  Claim C3. Let \<open>_parse_round\<close> return \<open>pr\<close> for a round (a dict with items \<open>kvs\<close>).
  If \<open><ANSWER>X</ANSWER>\<close> is the first such span of the full answer (no opening tag
  before it, no closing tag inside \<open>X\<close>), then \<open>public_answer\<close> is \<open>X\<close> stripped of
  surrounding whitespace, whatever the round's own \<open>public_answer\<close> field holds; every
  full answer that contains a span has such a first span. If the full answer contains
  no span, \<open>public_answer\<close> is the round's \<open>public_answer\<close> field, and the empty string
  when the round has no such field.
\<close>

theorem public_answer_precedence:
  assumes "parse_round config (JObj kvs) round_idx = Inr pr"
  shows "dict_get (JObj kvs) ''full_answer'' (JStr []) = Inr (JStr (full_answer pr))
    \<and> (\<forall>pre X post.
          full_answer pr = pre @ ''<ANSWER>'' @ X @ ''</ANSWER>'' @ post
          \<and> \<not> sublist ''<ANSWER>'' pre \<and> \<not> sublist ''</ANSWER>'' X
          \<longrightarrow> public_answer pr = JStr (strip X))
    \<and> ((\<exists>pre X post. full_answer pr = pre @ ''<ANSWER>'' @ X @ ''</ANSWER>'' @ post)
          \<longrightarrow> (\<exists>pre X post. full_answer pr = pre @ ''<ANSWER>'' @ X @ ''</ANSWER>'' @ post
                \<and> \<not> sublist ''<ANSWER>'' pre \<and> \<not> sublist ''</ANSWER>'' X
                \<and> public_answer pr = JStr (strip X)))
    \<and> ((\<nexists>pre X post. full_answer pr = pre @ ''<ANSWER>'' @ X @ ''</ANSWER>'' @ post)
          \<longrightarrow> public_answer pr =
                (case map_of kvs ''public_answer'' of Some v \<Rightarrow> v | None \<Rightarrow> JStr []))"
proof -
  let ?span = "\<exists>pre X post. full_answer pr = pre @ ''<ANSWER>'' @ X @ ''</ANSWER>'' @ post"
  from parse_round_Inr [OF assms]
  have fa: "dict_get (JObj kvs) ''full_answer'' (JStr []) = Inr (JStr (full_answer pr))"
    and pa: "public_answer pr =
         (case search answer_pattern (full_answer pr) of
            Some (g, rest) \<Rightarrow> JStr (strip g)
          | None \<Rightarrow> (case map_of kvs ''public_answer'' of Some v \<Rightarrow> v | None \<Rightarrow> JStr []))"
    by auto
  have found: "public_answer pr = JStr (strip X)"
    if "full_answer pr = pre @ ''<ANSWER>'' @ X @ ''</ANSWER>'' @ post"
      and "\<not> sublist ''<ANSWER>'' pre" and "\<not> sublist ''</ANSWER>'' X" for pre X post
    using answer_search_first [OF that(2,3), of post] that(1) pa by simp
  have some: "\<exists>pre X post. full_answer pr = pre @ ''<ANSWER>'' @ X @ ''</ANSWER>'' @ post
                \<and> \<not> sublist ''<ANSWER>'' pre \<and> \<not> sublist ''</ANSWER>'' X
                \<and> public_answer pr = JStr (strip X)" if ?span
  proof -
    from that obtain pre X post
      where "full_answer pr = pre @ ''<ANSWER>'' @ X @ ''</ANSWER>'' @ post" by blast
    from first_span_exists [OF this] obtain pre' X' post'
      where *: "full_answer pr = pre' @ ''<ANSWER>'' @ X' @ ''</ANSWER>'' @ post'"
        "\<not> sublist ''<ANSWER>'' pre'" "\<not> sublist ''</ANSWER>'' X'"
      by auto
    from found [OF this] * show ?thesis by blast
  qed
  have absent: "public_answer pr =
                (case map_of kvs ''public_answer'' of Some v \<Rightarrow> v | None \<Rightarrow> JStr [])"
    if no: "\<not> ?span"
  proof (cases "search answer_pattern (full_answer pr)")
    case None
    with pa show ?thesis by simp
  next
    case (Some r)
    obtain g rest where "r = (g, rest)" by (cases r)
    with Some have "\<exists>pre. full_answer pr = pre @ ''<ANSWER>'' @ g @ ''</ANSWER>'' @ rest"
      unfolding answer_pattern_def by (intro tag_search_Some) simp
    with no show ?thesis by blast
  qed
  from fa found some absent show ?thesis by blast
qed

theorem public_answer_precedence_witness:
  "(\<exists>pr. parse_round Map.empty example_round 0 = Inr pr
      \<and> dict_get example_round ''public_answer'' (JStr []) = Inr (JStr ''ignored'')
      \<and> public_answer pr = JStr ''I offer 5'')
   \<and> (\<exists>pr. parse_round Map.empty plain_round 0 = Inr pr
      \<and> public_answer pr = JStr ''Let me think.'')
   \<and> (\<exists>pr. parse_round Map.empty bad_deals_round 0 = Inr pr
      \<and> public_answer pr = JStr [])"
proof -
  let ?pre = "''Hi <SCRATCHPAD> plan\<newline>B </SCRATCHPAD>''"
  let ?post = "''<DEAL> a:1, b:2</DEAL> or <DEAL>a:2, b:1 </DEAL>''"
  obtain pr where pr: "parse_round Map.empty example_round 0 = Inr pr"
    and fa: "full_answer pr = ?pre @ ''<ANSWER>'' @ '' I offer 5 '' @ ''</ANSWER>'' @ ?post"
    using example_round_parsed by simp
  have a: "\<not> sublist ''<ANSWER>'' ?pre" by code_simp
  have b: "\<not> sublist ''</ANSWER>'' '' I offer 5 ''" by code_simp
  have c: "strip '' I offer 5 '' = ''I offer 5''" by code_simp
  from public_answer_precedence [OF pr [unfolded example_round_def]] fa a b
  have "public_answer pr = JStr (strip '' I offer 5 '')" by blast
  with pr c have first: "\<exists>pr. parse_round Map.empty example_round 0 = Inr pr
      \<and> dict_get example_round ''public_answer'' (JStr []) = Inr (JStr ''ignored'')
      \<and> public_answer pr = JStr ''I offer 5''"
    by (auto simp: example_round_def)
  obtain pr2 where pr2: "parse_round Map.empty plain_round 0 = Inr pr2"
    and fa2: "full_answer pr2 = ''I will think about it.''"
    using plain_round_parsed by simp
  have d: "\<not> sublist ''<ANSWER>'' ''I will think about it.''" by code_simp
  from public_answer_precedence [OF pr2 [unfolded plain_round_def]]
    no_span_without_open_tag [OF d, of "''</ANSWER>''"] fa2
  have "public_answer pr2 = JStr ''Let me think.''" by simp
  with pr2 have second: "\<exists>pr. parse_round Map.empty plain_round 0 = Inr pr
      \<and> public_answer pr = JStr ''Let me think.''" by blast
  obtain pr3 where pr3: "parse_round Map.empty bad_deals_round 0 = Inr pr3"
    and fa3: "full_answer pr3 = ''<DEAL></DEAL> and <DEAL>a<b</DEAL>''"
    using bad_deals_round_parsed by simp
  have e: "\<not> sublist ''<ANSWER>'' ''<DEAL></DEAL> and <DEAL>a<b</DEAL>''" by code_simp
  from public_answer_precedence [OF pr3 [unfolded bad_deals_round_def]]
    no_span_without_open_tag [OF e, of "''</ANSWER>''"] fa3
  have "public_answer pr3 = JStr []" by simp
  with pr3 have "\<exists>pr. parse_round Map.empty bad_deals_round 0 = Inr pr
      \<and> public_answer pr = JStr []" by blast
  with first second show ?thesis by blast
qed

subsection \<open>Deal extraction\<close>



lemma findall_spans:
  assumes "\<forall>(pre, A)\<in>set spans.
      \<not> sublist ''<DEAL>'' pre \<and> CHR ''<'' \<notin> set A \<and> (\<exists>x\<in>set A. \<not> isspace x)"
    and "\<not> sublist ''<DEAL>'' post"
  shows "findall deal_pattern (with_deals spans post)
    = map (\<lambda>(pre, A). dropWhile isspace A) spans"
  using assms(1)
proof (induction spans)
  case Nil
  then show ?case using findall_no_tag [OF assms(2)] by simp
next
  case (Cons span spans)
  obtain pre A where span: "span = (pre, A)" by (cases span)
  from Cons.prems span have pre: "\<not> sublist ''<DEAL>'' pre"
    and A: "CHR ''<'' \<notin> set A" "\<exists>x\<in>set A. \<not> isspace x"
    and rest: "\<forall>(pre, A)\<in>set spans.
      \<not> sublist ''<DEAL>'' pre \<and> CHR ''<'' \<notin> set A \<and> (\<exists>x\<in>set A. \<not> isspace x)"
    by simp_all
  have "findall deal_pattern (pre @ ''<DEAL>'' @ A @ ''</DEAL>'' @ with_deals spans post)
      = findall deal_pattern (''<DEAL>'' @ A @ ''</DEAL>'' @ with_deals spans post)"
    by (rule findall_skip_to_tag [OF pre])
  also have "\<dots> = dropWhile isspace A # findall deal_pattern (with_deals spans post)"
    by (rule findall_hit, rule deal_match_content [OF A])
  also have "findall deal_pattern (with_deals spans post)
      = map (\<lambda>(pre, A). dropWhile isspace A) spans"
    by (rule Cons.IH [OF rest])
  finally show ?case unfolding span by simp
qed

lemma dropWhile_id_hd: "A \<noteq> [] \<Longrightarrow> \<not> P (hd A) \<Longrightarrow> dropWhile P A = A"
  by (cases A) auto

text \<open>
  Claim C4, as the code has it. A full answer without the tag \<open><DEAL>\<close> gives an empty
  \<open>deals_proposed\<close> and a false \<open>has_deal\<close>. For a full answer made of any number of
  spans \<open><DEAL>A1</DEAL>\<close>, ..., \<open><DEAL>An</DEAL>\<close>, with no \<open><DEAL>\<close> in the text before,
  between and after them (tags in another case are such text), where every content is
  non-empty, has no \<open><\<close> and does not end in whitespace, \<open>deals_proposed\<close> holds one
  entry per span, in the order of the text: the content without its leading whitespace,
  so the content itself when it does not begin with whitespace. \<open>has_deal\<close> is true
  exactly when there is a span. The two spans \<open><DEAL>A</DEAL>\<close> and \<open><DEAL>B</DEAL>\<close> of
  the specification are the case \<open>n = 2\<close>.
\<close>

theorem deal_extraction:
  assumes "parse_round config round_data round_idx = Inr pr"
  shows "(\<not> sublist ''<DEAL>'' (full_answer pr) \<longrightarrow> deals_proposed pr = [] \<and> \<not> has_deal pr)
    \<and> (\<forall>spans post.
          full_answer pr = with_deals spans post
          \<and> (\<forall>(pre, A)\<in>set spans.
                \<not> sublist ''<DEAL>'' pre \<and> CHR ''<'' \<notin> set A \<and> A \<noteq> [] \<and> \<not> isspace (last A))
          \<and> \<not> sublist ''<DEAL>'' post
          \<longrightarrow> deals_proposed pr = map (\<lambda>(pre, A). dropWhile isspace A) spans
            \<and> length (deals_proposed pr) = length spans
            \<and> has_deal pr = (spans \<noteq> [])
            \<and> ((\<forall>(pre, A)\<in>set spans. \<not> isspace (hd A))
                  \<longrightarrow> deals_proposed pr = map snd spans))
    \<and> (\<forall>pre A mid B post.
          full_answer pr
            = pre @ ''<DEAL>'' @ A @ ''</DEAL>'' @ mid @ ''<DEAL>'' @ B @ ''</DEAL>'' @ post
          \<and> \<not> sublist ''<DEAL>'' pre \<and> \<not> sublist ''<DEAL>'' mid \<and> \<not> sublist ''<DEAL>'' post
          \<and> CHR ''<'' \<notin> set A \<and> A \<noteq> [] \<and> \<not> isspace (last A)
          \<and> CHR ''<'' \<notin> set B \<and> B \<noteq> [] \<and> \<not> isspace (last B)
          \<longrightarrow> deals_proposed pr = [dropWhile isspace A, dropWhile isspace B] \<and> has_deal pr
              \<and> (\<not> isspace (hd A) \<and> \<not> isspace (hd B) \<longrightarrow> deals_proposed pr = [A, B]))"
proof -
  from parse_round_Inr [OF assms]
  have d: "deals_proposed pr = findall deal_pattern (full_answer pr)"
    and h: "has_deal pr = (deals_proposed pr \<noteq> [])"
    by auto
  have none: "deals_proposed pr = [] \<and> \<not> has_deal pr" if "\<not> sublist ''<DEAL>'' (full_answer pr)"
    using findall_no_tag [OF that] d h by simp
  have many: "deals_proposed pr = map (\<lambda>(pre, A). dropWhile isspace A) spans
            \<and> length (deals_proposed pr) = length spans
            \<and> has_deal pr = (spans \<noteq> [])
            \<and> ((\<forall>(pre, A)\<in>set spans. \<not> isspace (hd A))
                  \<longrightarrow> deals_proposed pr = map snd spans)"
    if fa: "full_answer pr = with_deals spans post"
      and sp: "\<forall>(pre, A)\<in>set spans.
                \<not> sublist ''<DEAL>'' pre \<and> CHR ''<'' \<notin> set A \<and> A \<noteq> [] \<and> \<not> isspace (last A)"
      and post: "\<not> sublist ''<DEAL>'' post"
    for spans post
  proof -
    have "\<forall>(pre, A)\<in>set spans.
        \<not> sublist ''<DEAL>'' pre \<and> CHR ''<'' \<notin> set A \<and> (\<exists>x\<in>set A. \<not> isspace x)"
    proof (clarify, intro conjI)
      fix pre A assume in_spans: "(pre, A) \<in> set spans"
      with sp have *: "\<not> sublist ''<DEAL>'' pre" "CHR ''<'' \<notin> set A" "A \<noteq> []"
        "\<not> isspace (last A)"
        by auto
      show "\<not> sublist ''<DEAL>'' pre" by (rule *(1))
      show "CHR ''<'' \<notin> set A" by (rule *(2))
      show "\<exists>x\<in>set A. \<not> isspace x"
        using *(3,4) by (intro bexI [of _ "last A"]) simp_all
    qed
    from findall_spans [OF this post]
    have ds: "deals_proposed pr = map (\<lambda>(pre, A). dropWhile isspace A) spans"
      unfolding d fa .
    have same: "map (\<lambda>(pre, A). dropWhile isspace A) spans = map snd spans"
      if "\<forall>(pre, A)\<in>set spans. \<not> isspace (hd A)"
    proof (rule map_cong [OF refl])
      fix span assume s: "span \<in> set spans"
      obtain pre A where span: "span = (pre, A)" by (cases span)
      with s sp that have "A \<noteq> []" "\<not> isspace (hd A)" by auto
      then show "(case span of (pre, A) \<Rightarrow> dropWhile isspace A) = snd span"
        unfolding span by (simp add: dropWhile_id_hd)
    qed
    from ds h same show ?thesis by auto
  qed
  have two: "deals_proposed pr = [dropWhile isspace A, dropWhile isspace B] \<and> has_deal pr
              \<and> (\<not> isspace (hd A) \<and> \<not> isspace (hd B) \<longrightarrow> deals_proposed pr = [A, B])"
    if fa: "full_answer pr
            = pre @ ''<DEAL>'' @ A @ ''</DEAL>'' @ mid @ ''<DEAL>'' @ B @ ''</DEAL>'' @ post"
      and pre: "\<not> sublist ''<DEAL>'' pre" and mid: "\<not> sublist ''<DEAL>'' mid"
      and post: "\<not> sublist ''<DEAL>'' post"
      and A: "CHR ''<'' \<notin> set A" "A \<noteq> []" "\<not> isspace (last A)"
      and B: "CHR ''<'' \<notin> set B" "B \<noteq> []" "\<not> isspace (last B)"
    for pre A mid B post
  proof -
    have "full_answer pr = with_deals [(pre, A), (mid, B)] post"
      unfolding fa by simp
    moreover have "\<forall>(pre, A)\<in>set [(pre, A), (mid, B)].
        \<not> sublist ''<DEAL>'' pre \<and> CHR ''<'' \<notin> set A \<and> A \<noteq> [] \<and> \<not> isspace (last A)"
      using pre mid A B by simp
    ultimately have "deals_proposed pr
        = map (\<lambda>(pre, A). dropWhile isspace A) [(pre, A), (mid, B)]"
      and hd: "has_deal pr = ([(pre, A), (mid, B)] \<noteq> [])"
      using many [OF _ _ post] by blast+
    then have ds: "deals_proposed pr = [dropWhile isspace A, dropWhile isspace B]" by simp
    from A B have "\<not> isspace (hd A) \<Longrightarrow> dropWhile isspace A = A"
      and "\<not> isspace (hd B) \<Longrightarrow> dropWhile isspace B = B"
      by (simp_all add: dropWhile_id_hd)
    with ds hd show ?thesis by simp
  qed
  from none many two show ?thesis by blast
qed

lemma deal_rounds_parsed:
  "map_sum id (\<lambda>r. (full_answer r, deals_proposed r, has_deal r))
     (parse_round Map.empty three_deals_round 0)
   = Inr (''Offer: <DEAL> a:1, b:2</DEAL> or <deal>x</deal> <DEAL>a:2, b:1</DEAL>, else <DEAL>a:3</DEAL>.'',
          [''a:1, b:2'', ''a:2, b:1'', ''a:3''], True)"
  "map_sum id (\<lambda>r. (full_answer r, deals_proposed r, has_deal r))
     (parse_round Map.empty two_deals_round 0)
   = Inr (''Either <DEAL> a:1</DEAL> or <DEAL>b:2</DEAL>!'', [''a:1'', ''b:2''], True)"
  by code_simp+

theorem deal_extraction_witness:
  "(\<exists>pr. parse_round Map.empty plain_round 0 = Inr pr
      \<and> \<not> sublist ''<DEAL>'' (full_answer pr) \<and> deals_proposed pr = [] \<and> \<not> has_deal pr)
   \<and> (\<exists>pr. parse_round Map.empty three_deals_round 0 = Inr pr
      \<and> full_answer pr
          = with_deals [(''Offer: '', '' a:1, b:2''), ('' or <deal>x</deal> '', ''a:2, b:1''),
                        ('', else '', ''a:3'')] ''.''
      \<and> deals_proposed pr = [''a:1, b:2'', ''a:2, b:1'', ''a:3''] \<and> has_deal pr)
   \<and> (\<exists>pr. parse_round Map.empty two_deals_round 0 = Inr pr
      \<and> full_answer pr
          = ''Either '' @ ''<DEAL>'' @ '' a:1'' @ ''</DEAL>'' @ '' or ''
            @ ''<DEAL>'' @ ''b:2'' @ ''</DEAL>'' @ ''!''
      \<and> deals_proposed pr = [''a:1'', ''b:2''] \<and> has_deal pr)"
proof -
  obtain pr where pr: "parse_round Map.empty plain_round 0 = Inr pr"
    and fa: "full_answer pr = ''I will think about it.''"
    using plain_round_parsed by simp
  have a: "\<not> sublist ''<DEAL>'' ''I will think about it.''" by code_simp
  from deal_extraction [OF pr] a fa
  have "deals_proposed pr = [] \<and> \<not> has_deal pr" by simp
  with pr fa a have first: "\<exists>pr. parse_round Map.empty plain_round 0 = Inr pr
      \<and> \<not> sublist ''<DEAL>'' (full_answer pr) \<and> deals_proposed pr = [] \<and> \<not> has_deal pr"
    by auto
  let ?spans = "[(''Offer: '', '' a:1, b:2''), ('' or <deal>x</deal> '', ''a:2, b:1''),
                 ('', else '', ''a:3'')]"
  obtain pr3 where pr3: "parse_round Map.empty three_deals_round 0 = Inr pr3"
    and fa3: "full_answer pr3 = with_deals ?spans ''.''"
    using deal_rounds_parsed(1)
    by (cases "parse_round Map.empty three_deals_round 0") auto
  have b: "\<not> sublist ''<DEAL>'' ''Offer: ''" "\<not> sublist ''<DEAL>'' '' or <deal>x</deal> ''"
    "\<not> sublist ''<DEAL>'' '', else ''" "\<not> sublist ''<DEAL>'' ''.''"
    by code_simp+
  have sp: "\<forall>(pre, A)\<in>set ?spans.
      \<not> sublist ''<DEAL>'' pre \<and> CHR ''<'' \<notin> set A \<and> A \<noteq> [] \<and> \<not> isspace (last A)"
    using b by (simp add: isspace_def)
  have dw: "map (\<lambda>(pre, A). dropWhile isspace A) ?spans = [''a:1, b:2'', ''a:2, b:1'', ''a:3'']"
    by (simp add: isspace_def)
  from deal_extraction [OF pr3] fa3 sp b(4)
  have "deals_proposed pr3 = map (\<lambda>(pre, A). dropWhile isspace A) ?spans
      \<and> has_deal pr3 = (?spans \<noteq> [])"
    by blast
  with dw pr3 fa3 have second: "\<exists>pr. parse_round Map.empty three_deals_round 0 = Inr pr
      \<and> full_answer pr = with_deals ?spans ''.''
      \<and> deals_proposed pr = [''a:1, b:2'', ''a:2, b:1'', ''a:3''] \<and> has_deal pr"
    by auto
  obtain pr2 where pr2: "parse_round Map.empty two_deals_round 0 = Inr pr2"
    and fa2: "full_answer pr2 = ''Either '' @ ''<DEAL>'' @ '' a:1'' @ ''</DEAL>'' @ '' or ''
            @ ''<DEAL>'' @ ''b:2'' @ ''</DEAL>'' @ ''!''"
    using deal_rounds_parsed(2)
    by (cases "parse_round Map.empty two_deals_round 0") auto
  have c: "\<not> sublist ''<DEAL>'' ''Either ''" "\<not> sublist ''<DEAL>'' '' or ''"
    "\<not> sublist ''<DEAL>'' ''!''"
    by code_simp+
  have e: "CHR ''<'' \<notin> set '' a:1''" "'' a:1'' \<noteq> []" "\<not> isspace (last '' a:1'')"
    "CHR ''<'' \<notin> set ''b:2''" "''b:2'' \<noteq> []" "\<not> isspace (last ''b:2'')"
    by (simp_all add: isspace_def)
  have f: "dropWhile isspace '' a:1'' = ''a:1''" "dropWhile isspace ''b:2'' = ''b:2''"
    by (simp_all add: isspace_def)
  from deal_extraction [OF pr2] fa2 c e
  have "deals_proposed pr2 = [dropWhile isspace '' a:1'', dropWhile isspace ''b:2'']
      \<and> has_deal pr2"
    by blast
  with f pr2 fa2 have "\<exists>pr. parse_round Map.empty two_deals_round 0 = Inr pr
      \<and> full_answer pr = ''Either '' @ ''<DEAL>'' @ '' a:1'' @ ''</DEAL>'' @ '' or ''
            @ ''<DEAL>'' @ ''b:2'' @ ''</DEAL>'' @ ''!''
      \<and> deals_proposed pr = [''a:1'', ''b:2''] \<and> has_deal pr"
    by auto
  with first second show ?thesis by blast
qed

text \<open>
  The claim as the specification words it, \<open>deals_proposed = [A, B]\<close> for the two spans
  \<open><DEAL>A</DEAL>\<close> and \<open><DEAL>B</DEAL>\<close>, fails when \<open>A\<close> begins with whitespace: for the
  full answer \<open><DEAL> x</DEAL><DEAL>y</DEAL>\<close>, where \<open>A\<close> is a space followed by \<open>x\<close>, the
  parsed list is \<open>[x, y]\<close>.
\<close>

theorem deal_extraction_counterexample:
  "map_sum id deals_proposed
     (parse_round Map.empty
        (JObj [(''full_answer'',
                JStr (''<DEAL>'' @ '' x'' @ ''</DEAL>'' @ ''<DEAL>'' @ ''y'' @ ''</DEAL>''))]) 0)
     = Inr [''x'', ''y'']
   \<and> [''x'', ''y''] \<noteq> ['' x'', ''y'']"
  by code_simp

subsection \<open>The message sequence of a run\<close>

lemma foldl_round_messages:
  "foldl (\<lambda>msgs round_data. msgs @ round_messages round_data) acc rs
     = acc @ concat (map round_messages rs)"
  by (induction rs arbitrary: acc) simp_all

lemma length_concat_pairs: "length (concat (map (\<lambda>r. [f r, g r]) rs)) = 2 * length rs"
  by (induction rs) simp_all

lemma nth_concat_pairs:
  "i < length rs \<Longrightarrow>
     concat (map (\<lambda>r. [f r, g r]) rs) ! (2 * i) = f (rs ! i)
     \<and> concat (map (\<lambda>r. [f r, g r]) rs) ! (2 * i + 1) = g (rs ! i)"
proof (induction rs arbitrary: i)
  case Nil
  then show ?case by simp
next
  case (Cons r rs)
  show ?case
  proof (cases i)
    case 0
    then show ?thesis by simp
  next
    case (Suc j)
    with Cons.prems have "j < length rs" by simp
    from Cons.IH [OF this] show ?thesis using Suc by simp
  qed
qed

text \<open>
  Claim C1. When every round of the parsed trajectory has a non-empty prompt (a prompt
  that counts as true in \<open>if round_data['prompt']\<close>; for a string, a non-empty one),
  \<open>convert_to_docent_format\<close> returns one run whose message list has twice as many
  messages as there are rounds: for round \<open>i\<close>, message \<open>2i\<close> is the user message with the
  round's prompt and message \<open>2i + 1\<close> is the assistant message, whose content is the
  round's public answer if that is non-empty (true in \<open>or\<close>) and else the raw full answer.
\<close>

theorem convert_alternates_user_assistant:
  fixes pd :: parsed_data
  assumes "\<forall>r\<in>set (rounds pd). truthy (prompt r)"
  shows "\<exists>run. convert_to_docent_format pd = [run]
    \<and> length (messages run) = 2 * length (rounds pd)
    \<and> (\<forall>i<length (rounds pd).
          messages run ! (2 * i) = \<lparr>role = ''user'', content = prompt (rounds pd ! i)\<rparr>
        \<and> messages run ! (2 * i + 1) =
            \<lparr>role = ''assistant'',
             content = (if truthy (public_answer (rounds pd ! i))
                        then public_answer (rounds pd ! i)
                        else JStr (full_answer (rounds pd ! i)))\<rparr>)"
proof -
  define u where "u r = \<lparr>role = ''user'', content = prompt r\<rparr>" for r :: parsed_round
  define a where "a r = \<lparr>role = ''assistant'',
      content = (if truthy (public_answer r) then public_answer r else JStr (full_answer r))\<rparr>"
    for r :: parsed_round
  define ms where "ms = concat (map (\<lambda>r. [u r, a r]) (rounds pd))"
  have eq: "map round_messages (rounds pd) = map (\<lambda>r. [u r, a r]) (rounds pd)"
    using assms by (intro map_cong) (simp_all add: round_messages_def u_def a_def py_or_def)
  have "convert_to_docent_format pd =
      [\<lparr>messages = ms,
        run_meta = \<lparr>run_filename = filename pd,
                    experiment_type = ''multi_agent_negotiation'',
                    run_total_rounds = total_rounds (metadata pd)\<rparr>\<rparr>]"
    unfolding convert_to_docent_format_def foldl_round_messages ms_def eq by simp
  moreover have "length ms = 2 * length (rounds pd)"
    unfolding ms_def by (rule length_concat_pairs)
  moreover have "ms ! (2 * i) = u (rounds pd ! i) \<and> ms ! (2 * i + 1) = a (rounds pd ! i)"
    if "i < length (rounds pd)" for i
    unfolding ms_def using that by (rule nth_concat_pairs)
  ultimately show ?thesis by (simp add: u_def a_def)
qed

lemma history_1_rounds:
  "map_sum id (map (\<lambda>r. (prompt r, public_answer r, full_answer r)))
     (map_sum id rounds (parse_trajectory_file Map.empty history_1))
   = Inr [(JStr ''Your turn.'', JStr ''I offer 5'',
           ''Hi <SCRATCHPAD> plan\<newline>B </SCRATCHPAD><ANSWER> I offer 5 </ANSWER><DEAL> a:1, b:2</DEAL> or <DEAL>a:2, b:1 </DEAL>''),
          (JStr ''Your turn.'', JStr ''Let me think.'', ''I will think about it.''),
          (JStr ''Final call.'', JStr [], ''No deal.'')]"
  by code_simp

theorem convert_alternates_user_assistant_witness:
  "\<exists>pd run. parse_trajectory_file Map.empty history_1 = Inr pd
    \<and> length (rounds pd) = 3
    \<and> convert_to_docent_format pd = [run]
    \<and> length (messages run) = 6
    \<and> messages run ! 0 = \<lparr>role = ''user'', content = JStr ''Your turn.''\<rparr>
    \<and> messages run ! 1 = \<lparr>role = ''assistant'', content = JStr ''I offer 5''\<rparr>
    \<and> messages run ! 2 = \<lparr>role = ''user'', content = JStr ''Your turn.''\<rparr>
    \<and> messages run ! 3 = \<lparr>role = ''assistant'', content = JStr ''Let me think.''\<rparr>
    \<and> messages run ! 4 = \<lparr>role = ''user'', content = JStr ''Final call.''\<rparr>
    \<and> messages run ! 5 = \<lparr>role = ''assistant'', content = JStr ''No deal.''\<rparr>"
proof -
  obtain pd where pd: "parse_trajectory_file Map.empty history_1 = Inr pd"
    and rs: "map (\<lambda>r. (prompt r, public_answer r, full_answer r)) (rounds pd)
      = [(JStr ''Your turn.'', JStr ''I offer 5'',
           ''Hi <SCRATCHPAD> plan\<newline>B </SCRATCHPAD><ANSWER> I offer 5 </ANSWER><DEAL> a:1, b:2</DEAL> or <DEAL>a:2, b:1 </DEAL>''),
          (JStr ''Your turn.'', JStr ''Let me think.'', ''I will think about it.''),
          (JStr ''Final call.'', JStr [], ''No deal.'')]"
    using history_1_rounds by (cases "parse_trajectory_file Map.empty history_1") auto
  from rs obtain r0 r1 r2 where rounds: "rounds pd = [r0, r1, r2]"
    and r0: "prompt r0 = JStr ''Your turn.''" "public_answer r0 = JStr ''I offer 5''"
    and r1: "prompt r1 = JStr ''Your turn.''" "public_answer r1 = JStr ''Let me think.''"
    and r2: "prompt r2 = JStr ''Final call.''" "public_answer r2 = JStr []"
      "full_answer r2 = ''No deal.''"
    by auto
  have "\<forall>r\<in>set (rounds pd). truthy (prompt r)"
    using rounds r0 r1 r2 by simp
  from convert_alternates_user_assistant [OF this] obtain run
    where run: "convert_to_docent_format pd = [run]"
      and len: "length (messages run) = 2 * length (rounds pd)"
      and nth: "\<And>i. i < length (rounds pd) \<Longrightarrow>
          messages run ! (2 * i) = \<lparr>role = ''user'', content = prompt (rounds pd ! i)\<rparr>
        \<and> messages run ! (2 * i + 1) =
            \<lparr>role = ''assistant'',
             content = (if truthy (public_answer (rounds pd ! i))
                        then public_answer (rounds pd ! i)
                        else JStr (full_answer (rounds pd ! i)))\<rparr>"
    by blast
  from nth [of 0] nth [of 1] nth [of 2] len rounds r0 r1 r2
  have "length (messages run) = 6
    \<and> messages run ! 0 = \<lparr>role = ''user'', content = JStr ''Your turn.''\<rparr>
    \<and> messages run ! 1 = \<lparr>role = ''assistant'', content = JStr ''I offer 5''\<rparr>
    \<and> messages run ! 2 = \<lparr>role = ''user'', content = JStr ''Your turn.''\<rparr>
    \<and> messages run ! 3 = \<lparr>role = ''assistant'', content = JStr ''Let me think.''\<rparr>
    \<and> messages run ! 4 = \<lparr>role = ''user'', content = JStr ''Final call.''\<rparr>
    \<and> messages run ! 5 = \<lparr>role = ''assistant'', content = JStr ''No deal.''\<rparr>"
    by simp
  with pd run rounds show ?thesis by simp
qed

subsection \<open>Per-file failures\<close>

lemma process_files_eq:
  "process_files config files (all_runs, processed_files) =
     (all_runs @ concat (map (\<lambda>f. case parse_trajectory_file config f of
                                      Inr pd \<Rightarrow> convert_to_docent_format pd | Inl e \<Rightarrow> [])
                          (filter (\<lambda>f. \<not> raises config f) files)),
      processed_files @ filter (\<lambda>f. \<not> raises config f) files)"
proof (induction files arbitrary: all_runs processed_files)
  case Nil
  then show ?case by simp
next
  case (Cons f files)
  show ?case
  proof (cases "parse_trajectory_file config f")
    case (Inl e)
    then show ?thesis using Cons.IH by (simp add: raises_def)
  next
    case (Inr pd)
    then show ?thesis using Cons.IH by (simp add: raises_def)
  qed
qed

lemma one_run_per_file:
  "\<not> raises config f \<Longrightarrow>
     map (\<lambda>r. run_filename (run_meta r))
       (case parse_trajectory_file config f of
          Inr pd \<Rightarrow> convert_to_docent_format pd | Inl e \<Rightarrow> []) = [file_name f]"
  by (cases "parse_trajectory_file config f")
     (auto simp: raises_def convert_to_docent_format_def parse_trajectory_file_def and_then_Inr)

lemma run_filenames:
  "\<forall>f\<in>set fs. \<not> raises config f \<Longrightarrow>
     map (\<lambda>r. run_filename (run_meta r))
       (concat (map (\<lambda>f. case parse_trajectory_file config f of
                             Inr pd \<Rightarrow> convert_to_docent_format pd | Inl e \<Rightarrow> []) fs))
     = map file_name fs"
  by (induction fs) (simp_all add: one_run_per_file)

lemma data_dir_foldl_rename:
  "data_dir (foldl rename_into dirs fs)
     = filter (\<lambda>g. file_name g \<notin> set (map file_name fs)) (data_dir dirs)"
proof (induction fs arbitrary: dirs)
  case Nil
  then show ?case by simp
next
  case (Cons f fs)
  have "filter (\<lambda>g. file_name g \<notin> set (map file_name fs))
          (filter (\<lambda>g. file_name g \<noteq> file_name f) (data_dir dirs))
      = filter (\<lambda>g. file_name g \<notin> set (map file_name (f # fs))) (data_dir dirs)"
    by (induction "data_dir dirs") auto
  then show ?case unfolding foldl_Cons Cons.IH by (simp add: rename_into_def)
qed

lemma processed_dir_foldl_rename:
  "distinct (map file_name fs) \<Longrightarrow>
     processed_dir (foldl rename_into dirs fs)
       = filter (\<lambda>g. file_name g \<notin> set (map file_name fs)) (processed_dir dirs) @ fs"
proof (induction fs arbitrary: dirs)
  case Nil
  then show ?case by simp
next
  case (Cons f fs)
  from Cons.prems have d: "distinct (map file_name fs)" and f: "file_name f \<notin> set (map file_name fs)"
    by simp_all
  have "filter (\<lambda>g. file_name g \<notin> set (map file_name fs))
          (filter (\<lambda>g. file_name g \<noteq> file_name f) (processed_dir dirs))
      = filter (\<lambda>g. file_name g \<notin> set (map file_name (f # fs))) (processed_dir dirs)"
    by (induction "processed_dir dirs") auto
  then show ?case unfolding foldl_Cons Cons.IH [OF d] using f by (simp add: rename_into_def)
qed

lemma filter_names_distinct:
  assumes "distinct (map file_name dd)" and "set fs \<subseteq> set dd"
  shows "filter (\<lambda>g. file_name g \<notin> set (map file_name fs)) dd = filter (\<lambda>g. g \<notin> set fs) dd"
proof (rule filter_cong [OF refl])
  fix g assume g: "g \<in> set dd"
  have "inj_on file_name (set dd)" using assms(1) by (simp add: distinct_map)
  then have "file_name g \<in> file_name ` set fs \<longleftrightarrow> g \<in> set fs"
    using g assms(2) by (auto dest: inj_onD)
  then show "(file_name g \<notin> set (map file_name fs)) = (g \<notin> set fs)" by simp
qed

text \<open>
  Claim C2. Let \<open>good\<close> be the files of the data directory that match \<open>history*.json\<close>
  and for which parsing does not raise, in directory order. \<open>process_all_trajectories\<close>
  returns exactly these files as \<open>processed_files\<close> and one run per file of \<open>good\<close>, in
  the same order and carrying the file's name: a file that raises adds nothing to either
  list and stops nothing. \<open>main\<close> writes these runs and renames the files of \<open>good\<close>, and
  no others: in a data directory with no two files of one name, the files left are those
  not in \<open>good\<close>, and \<open>processed\<close> holds the files of \<open>good\<close> after the files it had under
  other names. In particular, for three matching files of which the second raises and
  the others do not, the runs are those of files 1 and 3, and files 1 and 3 are the ones
  moved, file 2 staying where it was.
\<close>

theorem per_file_failure_isolation:
  "let config = load_config config_txt;
       files = filter (\<lambda>f. glob_history (file_name f)) (data_dir dirs);
       good = filter (\<lambda>f. \<not> raises config f) files;
       (runs, processed_files) = process_all_trajectories config (data_dir dirs);
       (written, dirs') = main config_txt dirs
   in processed_files = good
    \<and> runs = concat (map (\<lambda>f. case parse_trajectory_file config f of
                                  Inr pd \<Rightarrow> convert_to_docent_format pd | Inl e \<Rightarrow> []) good)
    \<and> length runs = length good
    \<and> map (\<lambda>r. run_filename (run_meta r)) runs = map file_name good
    \<and> written = runs
    \<and> data_dir dirs'
        = filter (\<lambda>g. file_name g \<notin> set (map file_name good)) (data_dir dirs)
    \<and> (distinct (map file_name (data_dir dirs)) \<longrightarrow>
          data_dir dirs' = filter (\<lambda>f. f \<notin> set good) (data_dir dirs)
        \<and> processed_dir dirs'
            = filter (\<lambda>g. file_name g \<notin> set (map file_name good)) (processed_dir dirs) @ good)
    \<and> (\<forall>f1 f2 f3 pd1 e pd3.
          files = [f1, f2, f3]
          \<and> parse_trajectory_file config f1 = Inr pd1
          \<and> parse_trajectory_file config f2 = Inl e
          \<and> parse_trajectory_file config f3 = Inr pd3
          \<longrightarrow> runs = convert_to_docent_format pd1 @ convert_to_docent_format pd3
            \<and> processed_files = [f1, f3]
            \<and> (distinct (map file_name (data_dir dirs)) \<longrightarrow>
                  processed_dir dirs'
                    = filter (\<lambda>g. file_name g \<noteq> file_name f1 \<and> file_name g \<noteq> file_name f3)
                        (processed_dir dirs) @ [f1, f3]
                \<and> f2 \<in> set (data_dir dirs')
                \<and> f1 \<notin> set (data_dir dirs') \<and> f3 \<notin> set (data_dir dirs')))"
proof -
  define config where "config = load_config config_txt"
  define files where "files = filter (\<lambda>f. glob_history (file_name f)) (data_dir dirs)"
  define good where "good = filter (\<lambda>f. \<not> raises config f) files"
  define runs where "runs = concat (map (\<lambda>f. case parse_trajectory_file config f of
                                  Inr pd \<Rightarrow> convert_to_docent_format pd | Inl e \<Rightarrow> []) good)"
  define dirs' where "dirs' = foldl rename_into dirs good"
  have p: "process_all_trajectories config (data_dir dirs) = (runs, good)"
    unfolding process_all_trajectories_def process_files_eq runs_def good_def files_def by simp
  have m: "main config_txt dirs = (runs, dirs')"
    unfolding main_def Let_def config_def [symmetric] p dirs'_def by simp
  have names: "map (\<lambda>r. run_filename (run_meta r)) runs = map file_name good"
    unfolding runs_def by (rule run_filenames) (simp add: good_def)
  then have "length (map (\<lambda>r. run_filename (run_meta r)) runs) = length (map file_name good)"
    by simp
  then have len: "length runs = length good" by simp
  have sub: "set good \<subseteq> set (data_dir dirs)"
    unfolding good_def files_def by auto
  have dd: "data_dir dirs'
      = filter (\<lambda>g. file_name g \<notin> set (map file_name good)) (data_dir dirs)"
    unfolding dirs'_def by (rule data_dir_foldl_rename)
  have moved: "data_dir dirs' = filter (\<lambda>f. f \<notin> set good) (data_dir dirs)
        \<and> processed_dir dirs'
            = filter (\<lambda>g. file_name g \<notin> set (map file_name good)) (processed_dir dirs) @ good"
    if dist: "distinct (map file_name (data_dir dirs))"
  proof -
    have "distinct (map file_name files)"
      unfolding files_def using dist by (rule distinct_map_filter)
    then have "distinct (map file_name good)"
      unfolding good_def by (rule distinct_map_filter)
    then have "processed_dir dirs'
        = filter (\<lambda>g. file_name g \<notin> set (map file_name good)) (processed_dir dirs) @ good"
      unfolding dirs'_def by (rule processed_dir_foldl_rename)
    moreover have "data_dir dirs' = filter (\<lambda>f. f \<notin> set good) (data_dir dirs)"
      unfolding dd by (rule filter_names_distinct [OF dist sub])
    ultimately show ?thesis by blast
  qed
  have three: "runs = convert_to_docent_format pd1 @ convert_to_docent_format pd3
      \<and> good = [f1, f3]
      \<and> (distinct (map file_name (data_dir dirs)) \<longrightarrow>
            processed_dir dirs'
              = filter (\<lambda>g. file_name g \<noteq> file_name f1 \<and> file_name g \<noteq> file_name f3)
                  (processed_dir dirs) @ [f1, f3]
          \<and> f2 \<in> set (data_dir dirs')
          \<and> f1 \<notin> set (data_dir dirs') \<and> f3 \<notin> set (data_dir dirs'))"
    if "files = [f1, f2, f3]" and "parse_trajectory_file config f1 = Inr pd1"
      and "parse_trajectory_file config f2 = Inl e" and "parse_trajectory_file config f3 = Inr pd3"
    for f1 f2 f3 pd1 e pd3
  proof -
    from that have g: "good = [f1, f3]" by (simp add: good_def raises_def)
    from that have ne: "f2 \<noteq> f1" "f2 \<noteq> f3" by auto
    have f2: "f2 \<in> set (data_dir dirs)"
    proof -
      have "f2 \<in> set files" using that(1) by simp
      then show ?thesis unfolding files_def by simp
    qed
    have r: "runs = convert_to_docent_format pd1 @ convert_to_docent_format pd3"
      using that g by (simp add: runs_def)
    have "processed_dir dirs'
              = filter (\<lambda>g. file_name g \<noteq> file_name f1 \<and> file_name g \<noteq> file_name f3)
                  (processed_dir dirs) @ [f1, f3]
          \<and> f2 \<in> set (data_dir dirs')
          \<and> f1 \<notin> set (data_dir dirs') \<and> f3 \<notin> set (data_dir dirs')"
      if dist: "distinct (map file_name (data_dir dirs))"
    proof -
      from moved [OF dist] g
      have a: "data_dir dirs' = filter (\<lambda>f. f \<noteq> f1 \<and> f \<noteq> f3) (data_dir dirs)"
        and b: "processed_dir dirs'
            = filter (\<lambda>g. file_name g \<noteq> file_name f1 \<and> file_name g \<noteq> file_name f3)
                (processed_dir dirs) @ [f1, f3]"
        by simp_all
      from a f2 ne have "f2 \<in> set (data_dir dirs')" by simp
      moreover from a have "f1 \<notin> set (data_dir dirs')" "f3 \<notin> set (data_dir dirs')" by simp_all
      ultimately show ?thesis using b by blast
    qed
    with g r show ?thesis by blast
  qed
  have moved': "distinct (map file_name (data_dir dirs)) \<longrightarrow>
          data_dir dirs' = filter (\<lambda>f. f \<notin> set good) (data_dir dirs)
        \<and> processed_dir dirs'
            = filter (\<lambda>g. file_name g \<notin> set (map file_name good)) (processed_dir dirs) @ good"
    using moved by blast
  have three': "\<forall>f1 f2 f3 pd1 e pd3.
          files = [f1, f2, f3]
          \<and> parse_trajectory_file config f1 = Inr pd1
          \<and> parse_trajectory_file config f2 = Inl e
          \<and> parse_trajectory_file config f3 = Inr pd3
          \<longrightarrow> runs = convert_to_docent_format pd1 @ convert_to_docent_format pd3
            \<and> good = [f1, f3]
            \<and> (distinct (map file_name (data_dir dirs)) \<longrightarrow>
                  processed_dir dirs'
                    = filter (\<lambda>g. file_name g \<noteq> file_name f1 \<and> file_name g \<noteq> file_name f3)
                        (processed_dir dirs) @ [f1, f3]
                \<and> f2 \<in> set (data_dir dirs')
                \<and> f1 \<notin> set (data_dir dirs') \<and> f3 \<notin> set (data_dir dirs'))"
    using three by blast
  show ?thesis
    unfolding Let_def config_def [symmetric] files_def [symmetric] good_def [symmetric] p m
      prod.case
    using runs_def names len dd moved' three' by (intro conjI) (rule refl | assumption)+
qed

lemma history_files_matched:
  "filter (\<lambda>f. glob_history (file_name f)) (data_dir example_dirs)
     = [history_1, history_2, history_3]"
  by code_simp

lemma history_2_raises: "parse_trajectory_file Map.empty history_2 = Inl TypeError"
  by (simp add: parse_trajectory_file_def history_2_def parse_round_def)

lemma history_3_parses:
  "map_sum id filename (parse_trajectory_file Map.empty history_3) = Inr ''history_3.json''"
  by code_simp

lemma history_files_distinct:
  "history_2 \<noteq> history_1" "history_2 \<noteq> history_3" "config_file \<noteq> history_1"
  "config_file \<noteq> history_3"
  by (simp_all add: history_1_def history_2_def history_3_def config_file_def)

theorem per_file_failure_isolation_witness:
  "\<exists>runs. process_all_trajectories Map.empty (data_dir example_dirs)
              = (runs, [history_1, history_3])
    \<and> map (\<lambda>r. run_filename (run_meta r)) runs = [''history_1.json'', ''history_3.json'']
    \<and> raises Map.empty history_2
    \<and> processed_dir example_dirs = [old_history_1, old_history_0]
    \<and> main None example_dirs
        = (runs, \<lparr>data_dir = [history_2, config_file],
                  processed_dir = [old_history_0, history_1, history_3]\<rparr>)"
proof -
  obtain pd1 where pd1: "parse_trajectory_file Map.empty history_1 = Inr pd1"
    using history_1_rounds by (cases "parse_trajectory_file Map.empty history_1") auto
  obtain pd3 where pd3: "parse_trajectory_file Map.empty history_3 = Inr pd3"
    using history_3_parses by (cases "parse_trajectory_file Map.empty history_3") auto
  have good: "filter (\<lambda>f. \<not> raises Map.empty f) [history_1, history_2, history_3]
      = [history_1, history_3]"
    using pd1 pd3 history_2_raises by (simp add: raises_def)
  have dist: "distinct (map file_name (data_dir example_dirs))"
    by (simp add: example_dirs_def history_1_def history_2_def history_3_def config_file_def)
  obtain runs pf where p: "process_all_trajectories Map.empty (data_dir example_dirs) = (runs, pf)"
    by (cases "process_all_trajectories Map.empty (data_dir example_dirs)")
  obtain written dirs' where m: "main None example_dirs = (written, dirs')"
    by (cases "main None example_dirs")
  note all = per_file_failure_isolation [of None example_dirs,
      unfolded Let_def load_config.simps history_files_matched p m prod.case]
  from all pd1 pd3 history_2_raises dist
  have three: "pf = [history_1, history_3]"
    "processed_dir dirs'
       = filter (\<lambda>g. file_name g \<noteq> file_name history_1 \<and> file_name g \<noteq> file_name history_3)
           (processed_dir example_dirs) @ [history_1, history_3]"
    "history_2 \<in> set (data_dir dirs')"
    by blast+
  from all dist have rest: "written = runs"
    "map (\<lambda>r. run_filename (run_meta r)) runs
       = map file_name (filter (\<lambda>f. \<not> raises Map.empty f) [history_1, history_2, history_3])"
    "data_dir dirs' = filter (\<lambda>f. f \<notin> set
          (filter (\<lambda>f. \<not> raises Map.empty f) [history_1, history_2, history_3]))
        (data_dir example_dirs)"
    by blast+
  have names: "map (\<lambda>r. run_filename (run_meta r)) runs = [''history_1.json'', ''history_3.json'']"
    unfolding rest(2) good by (simp add: history_1_def history_3_def)
  have dd: "data_dir dirs' = [history_2, config_file]"
    unfolding rest(3) good using history_files_distinct by (simp add: example_dirs_def)
  have old: "processed_dir example_dirs = [old_history_1, old_history_0]"
    by (simp add: example_dirs_def)
  have pp: "processed_dir dirs' = [old_history_0, history_1, history_3]"
    unfolding three(2) old
    by (simp add: old_history_1_def old_history_0_def history_1_def history_3_def)
  have "dirs' = \<lparr>data_dir = data_dir dirs', processed_dir = processed_dir dirs'\<rparr>"
    by simp
  then have dirs': "dirs' = \<lparr>data_dir = [history_2, config_file],
      processed_dir = [old_history_0, history_1, history_3]\<rparr>"
    unfolding dd pp .
  have "raises Map.empty history_2"
    by (simp add: raises_def history_2_raises)
  with p m three(1) rest(1) names dirs' old show ?thesis by simp
qed

subsection \<open>Agent configuration\<close>

lemma load_line_short: "\<not> length (parts_of l) \<ge> 5 \<Longrightarrow> load_line config l = config"
  by (simp add: load_line_def)

lemma load_line_long:
  "length (parts_of l) \<ge> 5 \<Longrightarrow>
     load_line config l = config(parts_of l ! 0 \<mapsto>
       \<lparr>short_name = parts_of l ! 1, player_type = parts_of l ! 2,
        strategy = parts_of l ! 3, model = parts_of l ! 4\<rparr>)"
  by (simp add: load_line_def Let_def)

lemma foldl_load_line_filter:
  "foldl load_line config (filter (\<lambda>l. length (parts_of l) \<ge> 5) ls) = foldl load_line config ls"
  by (induction ls arbitrary: config) (simp_all add: load_line_short)

lemma foldl_load_line_other:
  "(\<And>l. l \<in> set ls \<Longrightarrow> length (parts_of l) \<ge> 5 \<Longrightarrow> parts_of l ! 0 \<noteq> n)
     \<Longrightarrow> foldl load_line config ls n = config n"
proof (induction ls arbitrary: config)
  case Nil
  then show ?case by simp
next
  case (Cons l ls)
  have "foldl load_line (load_line config l) ls n = load_line config l n"
    by (rule Cons.IH) (simp_all add: Cons.prems)
  also have "load_line config l n = config n"
  proof (cases "length (parts_of l) \<ge> 5")
    case True
    with Cons.prems [of l] have "parts_of l ! 0 \<noteq> n" by simp
    with True show ?thesis by (simp add: load_line_long)
  next
    case False
    then show ?thesis by (simp add: load_line_short)
  qed
  finally show ?case by simp
qed

lemma dom_foldl_load_line:
  "dom (foldl load_line config ls)
     = dom config \<union> {parts_of l ! 0 | l. l \<in> set ls \<and> length (parts_of l) \<ge> 5}"
proof (induction ls arbitrary: config)
  case Nil
  then show ?case by simp
next
  case (Cons l ls)
  show ?case
  proof (cases "length (parts_of l) \<ge> 5")
    case True
    then show ?thesis unfolding foldl_Cons Cons.IH by (auto simp: load_line_long)
  next
    case False
    then show ?thesis unfolding foldl_Cons Cons.IH by (auto simp: load_line_short)
  qed
qed

lemma load_config_last_wins:
  assumes i: "i < length ls" and long: "length (parts_of (ls ! i)) \<ge> 5"
    and later: "\<And>j. i < j \<Longrightarrow> j < length ls \<Longrightarrow> length (parts_of (ls ! j)) \<ge> 5
      \<Longrightarrow> parts_of (ls ! j) ! 0 \<noteq> parts_of (ls ! i) ! 0"
  shows "foldl load_line config ls (parts_of (ls ! i) ! 0) =
     Some \<lparr>short_name = parts_of (ls ! i) ! 1, player_type = parts_of (ls ! i) ! 2,
           strategy = parts_of (ls ! i) ! 3, model = parts_of (ls ! i) ! 4\<rparr>"
proof -
  let ?n = "parts_of (ls ! i) ! 0"
  let ?after = "load_line (foldl load_line config (take i ls)) (ls ! i)"
  have ls: "ls = take i ls @ ls ! i # drop (Suc i) ls"
    using i by (rule id_take_nth_drop)
  have "foldl load_line config ls = foldl load_line ?after (drop (Suc i) ls)"
    by (subst ls) simp
  moreover have "foldl load_line ?after (drop (Suc i) ls) ?n = ?after ?n"
  proof (rule foldl_load_line_other)
    fix l assume l: "l \<in> set (drop (Suc i) ls)" and ll: "length (parts_of l) \<ge> 5"
    from l obtain k where k: "k < length (drop (Suc i) ls)" "l = drop (Suc i) ls ! k"
      by (auto simp: in_set_conv_nth)
    then have "l = ls ! (Suc i + k)" and "Suc i + k < length ls" by simp_all
    with later [of "Suc i + k"] ll show "parts_of l ! 0 \<noteq> ?n" by simp
  qed
  moreover have "?after ?n = Some \<lparr>short_name = parts_of (ls ! i) ! 1,
      player_type = parts_of (ls ! i) ! 2,
      strategy = parts_of (ls ! i) ! 3, model = parts_of (ls ! i) ! 4\<rparr>"
    using long by (simp add: load_line_long)
  ultimately show ?thesis by simp
qed

text \<open>
  Claim C6, as the code has it. A missing \<open>config.txt\<close> gives the empty mapping. Lines with
  fewer than five comma-separated fields are skipped: the result is the one for the file
  without them, and the names in the mapping are the first fields of the lines with at
  least five. A line with at least five fields \<open>name, short_name, player_type, strategy,
  model\<close> yields the entry from \<open>name\<close> to the four fields after it, unless a later such
  line has the same name: the last line of a name is the one in the mapping. The fields
  are those of the line stripped of surrounding whitespace.
\<close>

theorem load_config_entries:
  "load_config None = Map.empty
   \<and> (\<forall>ls. load_config (Some ls)
            = load_config (Some (filter (\<lambda>l. length (parts_of l) \<ge> 5) ls)))
   \<and> (\<forall>ls. dom (load_config (Some ls))
            = {parts_of l ! 0 | l. l \<in> set ls \<and> length (parts_of l) \<ge> 5})
   \<and> (\<forall>ls i. i < length ls \<and> length (parts_of (ls ! i)) \<ge> 5
        \<and> (\<forall>j. i < j \<and> j < length ls \<and> length (parts_of (ls ! j)) \<ge> 5
              \<longrightarrow> parts_of (ls ! j) ! 0 \<noteq> parts_of (ls ! i) ! 0)
        \<longrightarrow> load_config (Some ls) (parts_of (ls ! i) ! 0)
            = Some \<lparr>short_name = parts_of (ls ! i) ! 1, player_type = parts_of (ls ! i) ! 2,
                    strategy = parts_of (ls ! i) ! 3, model = parts_of (ls ! i) ! 4\<rparr>)"
proof (intro conjI allI impI)
  show "load_config None = Map.empty" by simp
next
  fix ls
  show "load_config (Some ls) = load_config (Some (filter (\<lambda>l. length (parts_of l) \<ge> 5) ls))"
    by (simp add: foldl_load_line_filter)
next
  fix ls
  show "dom (load_config (Some ls))
      = {parts_of l ! 0 | l. l \<in> set ls \<and> length (parts_of l) \<ge> 5}"
    by (simp add: dom_foldl_load_line)
next
  fix ls i
  assume a: "i < length ls \<and> length (parts_of (ls ! i)) \<ge> 5
        \<and> (\<forall>j. i < j \<and> j < length ls \<and> length (parts_of (ls ! j)) \<ge> 5
              \<longrightarrow> parts_of (ls ! j) ! 0 \<noteq> parts_of (ls ! i) ! 0)"
  then show "load_config (Some ls) (parts_of (ls ! i) ! 0)
            = Some \<lparr>short_name = parts_of (ls ! i) ! 1, player_type = parts_of (ls ! i) ! 2,
                    strategy = parts_of (ls ! i) ! 3, model = parts_of (ls ! i) ! 4\<rparr>"
    unfolding load_config.simps by (intro load_config_last_wins) blast+
qed

theorem load_config_entries_witness:
  "load_config (Some example_config) ''Alice''
     = Some \<lparr>short_name = ''A1'', player_type = ''buyer'', strategy = ''aggressive'',
             model = ''gpt-4''\<rparr>
   \<and> dom (load_config (Some example_config)) = {''Alice''}
   \<and> load_config None ''Alice'' = None"
proof -
  have len: "length example_config = 2" by (simp add: example_config_def)
  have p0: "parts_of (example_config ! 0) = [''Alice'', ''A1'', ''buyer'', ''aggressive'', ''gpt-4'']"
    by code_simp
  have p1: "parts_of (example_config ! Suc 0) = [''Bob'', ''B1'', ''seller'']"
    by code_simp
  have later: "\<forall>j. 0 < j \<and> j < length example_config \<and> length (parts_of (example_config ! j)) \<ge> 5
      \<longrightarrow> parts_of (example_config ! j) ! 0 \<noteq> parts_of (example_config ! 0) ! 0"
  proof (intro allI impI)
    fix j assume "0 < j \<and> j < length example_config \<and> length (parts_of (example_config ! j)) \<ge> 5"
    then have "j = Suc 0" "length (parts_of (example_config ! j)) \<ge> 5" using len by auto
    then show "parts_of (example_config ! j) ! 0 \<noteq> parts_of (example_config ! 0) ! 0"
      using p1 by simp
  qed
  from load_config_entries have
    "0 < length example_config \<and> length (parts_of (example_config ! 0)) \<ge> 5
        \<and> (\<forall>j. 0 < j \<and> j < length example_config \<and> length (parts_of (example_config ! j)) \<ge> 5
              \<longrightarrow> parts_of (example_config ! j) ! 0 \<noteq> parts_of (example_config ! 0) ! 0)
        \<longrightarrow> load_config (Some example_config) (parts_of (example_config ! 0) ! 0)
            = Some \<lparr>short_name = parts_of (example_config ! 0) ! 1,
                    player_type = parts_of (example_config ! 0) ! 2,
                    strategy = parts_of (example_config ! 0) ! 3,
                    model = parts_of (example_config ! 0) ! 4\<rparr>"
    by blast
  with later len have "load_config (Some example_config) (parts_of (example_config ! 0) ! 0)
            = Some \<lparr>short_name = parts_of (example_config ! 0) ! 1,
                    player_type = parts_of (example_config ! 0) ! 2,
                    strategy = parts_of (example_config ! 0) ! 3,
                    model = parts_of (example_config ! 0) ! 4\<rparr>"
    using p0 by simp
  then have entry: "load_config (Some example_config) ''Alice''
     = Some \<lparr>short_name = ''A1'', player_type = ''buyer'', strategy = ''aggressive'',
             model = ''gpt-4''\<rparr>"
    unfolding p0 by simp
  from load_config_entries have "dom (load_config (Some example_config))
      = {parts_of l ! 0 | l. l \<in> set example_config \<and> length (parts_of l) \<ge> 5}"
    by blast
  also have "\<dots> = {''Alice''}"
  proof -
    have "set example_config = {example_config ! 0, example_config ! Suc 0}"
      by (simp add: example_config_def)
    moreover have "\<exists>l. ''Alice'' = parts_of l ! 0
        \<and> (l = example_config ! 0 \<or> l = example_config ! Suc 0) \<and> 5 \<le> length (parts_of l)"
      using p0 by (intro exI [of _ "example_config ! 0"]) simp
    ultimately show ?thesis using p0 p1 by auto
  qed
  finally have dom: "dom (load_config (Some example_config)) = {''Alice''}" .
  from load_config_entries have "load_config None = Map.empty" by blast
  then have "load_config None ''Alice'' = None" by simp
  with entry dom show ?thesis by blast
qed

text \<open>
  The claim as the specification words it, every line with at least five fields yielding
  the entry of its own fields, fails for a file in which a later line repeats a name:
  both lines of \<open>repeated_config\<close> have five fields and the name \<open>Alice\<close>, and the mapping
  holds the fields of the second, not those of the first.
\<close>

theorem load_config_entries_counterexample:
  "map parts_of repeated_config
     = [[''Alice'', ''A1'', ''buyer'', ''aggressive'', ''gpt-4''],
        [''Alice'', ''A2'', ''seller'', ''passive'', ''gpt-3'']]
   \<and> load_config (Some repeated_config) ''Alice''
       = Some \<lparr>short_name = ''A2'', player_type = ''seller'', strategy = ''passive'',
               model = ''gpt-3''\<rparr>
   \<and> load_config (Some repeated_config) ''Alice''
       \<noteq> Some \<lparr>short_name = ''A1'', player_type = ''buyer'', strategy = ''aggressive'',
               model = ''gpt-4''\<rparr>"
  by code_simp

subsection \<open>Agent runs built by the uploader\<close>

lemma convert_message_Inr:
  assumes "convert_message msg = Inr new"
  shows "(has_chat_role msg \<and> (\<exists>c. new = [c] \<and> converts_to msg c))
    \<or> (\<not> has_chat_role msg \<and> new = [])"
proof -
  from assms obtain r where r: "subscript msg ''role'' = Inr r"
    unfolding convert_message_def and_then_Inr by blast
  consider "r = JStr ''user''" | "r = JStr ''assistant''"
    | "r \<noteq> JStr ''user''" "r \<noteq> JStr ''assistant''"
    by blast
  then show ?thesis
  proof cases
    case 1
    with assms r obtain c where "subscript msg ''content'' = Inr c" "new = [UserMessage c]"
      by (auto simp: convert_message_def and_then_Inr)
    with 1 r show ?thesis by (simp add: has_chat_role_def converts_to_def)
  next
    case 2
    with assms r obtain c where "subscript msg ''content'' = Inr c" "new = [AssistantMessage c]"
      by (auto simp: convert_message_def and_then_Inr)
    with 2 r show ?thesis by (simp add: has_chat_role_def converts_to_def)
  next
    case 3
    with assms r have "new = []"
      unfolding convert_message_def by simp
    with 3 r show ?thesis by (simp add: has_chat_role_def)
  qed
qed

lemma convert_messages_Inr:
  "convert_messages items = Inr msgs \<Longrightarrow>
     list_all2 converts_to (filter has_chat_role items) msgs"
proof (induction items arbitrary: msgs)
  case Nil
  then show ?case by simp
next
  case (Cons msg rest)
  from Cons.prems obtain new others where new: "convert_message msg = Inr new"
    and others: "convert_messages rest = Inr others" and msgs: "msgs = new @ others"
    by (auto split: sum.splits)
  from Cons.IH [OF others] have "list_all2 converts_to (filter has_chat_role rest) others" .
  with convert_message_Inr [OF new] msgs show ?case by auto
qed

lemma create_from_Inr:
  "create_from float k items = Inr ars \<Longrightarrow>
     length ars = length items
     \<and> (\<forall>i<length items. create_agent_run float (k + i) (items ! i) = Inr (ars ! i))"
proof (induction items arbitrary: k ars)
  case Nil
  then show ?case by simp
next
  case (Cons rd rest)
  from Cons.prems obtain ar others where ar: "create_agent_run float k rd = Inr ar"
    and others: "create_from float (Suc k) rest = Inr others" and ars: "ars = ar # others"
    by (auto split: sum.splits)
  from Cons.IH [OF others] have len: "length others = length rest"
    and nth: "\<And>i. i < length rest \<Longrightarrow>
      create_agent_run float (Suc k + i) (rest ! i) = Inr (others ! i)"
    by auto
  have "create_agent_run float (k + i) ((rd # rest) ! i) = Inr (ars ! i)"
    if "i < length (rd # rest)" for i
  proof (cases i)
    case 0
    with ar ars show ?thesis by simp
  next
    case (Suc j)
    with that have "j < length rest" by simp
    from nth [OF this] Suc ars show ?thesis by simp
  qed
  with len ars show ?case by simp
qed

lemma create_agent_run_Inr:
  assumes "create_agent_run float i run_data = Inr ar"
  shows "\<exists>ms items msgs md fname tr total count session.
      subscript run_data ''messages'' = Inr ms \<and> py_iter ms = Inr items
    \<and> convert_messages items = Inr msgs
    \<and> subscript run_data ''metadata'' = Inr md \<and> subscript md ''filename'' = Inr fname
    \<and> dict_get md ''total_rounds'' (JInt 0) = Inr tr
    \<and> float tr = Inr total
    \<and> float (JInt (int (length msgs))) = Inr count
    \<and> float (JInt (int i + 1)) = Inr session
    \<and> ar = \<lparr>run_name = [Text ''Negotiation Session '', Val (JInt (int i + 1))],
          run_description = [Text ''Agent negotiation session from '', Val fname],
          transcripts = [(''main'',
             \<lparr>transcript_name = [Text ''Negotiation Session '', Val (JInt (int i + 1))],
              transcript_description = [Text ''Multi-agent negotiation from '', Val fname],
              transcript_messages = msgs\<rparr>)],
          scores = [(''total_rounds'', total), (''message_count'', count),
                    (''session_id'', session)]\<rparr>"
proof -
  from assms obtain ms where ms: "subscript run_data ''messages'' = Inr ms"
    unfolding create_agent_run_def and_then_Inr by blast
  from assms ms obtain items where items: "py_iter ms = Inr items"
    unfolding create_agent_run_def and_then_Inr by auto
  from assms ms items obtain msgs where msgs: "convert_messages items = Inr msgs"
    unfolding create_agent_run_def and_then_Inr by auto
  from assms ms items msgs obtain md where md: "subscript run_data ''metadata'' = Inr md"
    unfolding create_agent_run_def and_then_Inr by auto
  from assms ms items msgs md obtain fname where fname: "subscript md ''filename'' = Inr fname"
    unfolding create_agent_run_def and_then_Inr by auto
  from assms ms items msgs md fname obtain tr
    where tr: "dict_get md ''total_rounds'' (JInt 0) = Inr tr"
    unfolding create_agent_run_def and_then_Inr Let_def by auto
  from assms ms items msgs md fname tr obtain total where total: "float tr = Inr total"
    unfolding create_agent_run_def and_then_Inr Let_def by auto
  from assms ms items msgs md fname tr total obtain count
    where count: "float (JInt (int (length msgs))) = Inr count"
    unfolding create_agent_run_def and_then_Inr Let_def by auto
  from assms ms items msgs md fname tr total count obtain session
    where session: "float (JInt (int i + 1)) = Inr session"
    unfolding create_agent_run_def and_then_Inr Let_def by auto
  from assms ms items msgs md fname tr total count session
  have "ar = \<lparr>run_name = [Text ''Negotiation Session '', Val (JInt (int i + 1))],
          run_description = [Text ''Agent negotiation session from '', Val fname],
          transcripts = [(''main'',
             \<lparr>transcript_name = [Text ''Negotiation Session '', Val (JInt (int i + 1))],
              transcript_description = [Text ''Multi-agent negotiation from '', Val fname],
              transcript_messages = msgs\<rparr>)],
          scores = [(''total_rounds'', total), (''message_count'', count),
                    (''session_id'', session)]\<rparr>"
    unfolding create_agent_run_def Let_def by simp
  with ms items msgs md fname tr total count session show ?thesis by blast
qed

lemma create_agent_runs_nth:
  assumes "create_agent_runs_from_data float (Inr (JArr runs_data)) = Inr agent_runs"
  shows "length agent_runs = length runs_data"
    and "i < length runs_data \<Longrightarrow>
      create_agent_run float i (runs_data ! i) = Inr (agent_runs ! i)"
proof -
  from assms have "create_from float 0 runs_data = Inr agent_runs"
    by (simp add: create_agent_runs_from_data_def)
  from create_from_Inr [OF this]
  show "length agent_runs = length runs_data"
    and "i < length runs_data \<Longrightarrow>
      create_agent_run float i (runs_data ! i) = Inr (agent_runs ! i)"
    by auto
qed

text \<open>
  Claim C7. When \<open>create_agent_runs_from_data\<close> returns for an artifact that is an array
  of runs, it returns one agent run per run, and for the run at 0-based position \<open>i\<close> the
  scores are exactly three: \<open>total_rounds\<close> is \<open>float\<close> of the run metadata's
  \<open>total_rounds\<close>, taken as 0 when the key is absent, \<open>message_count\<close> is \<open>float\<close> of the
  number of messages of the transcript built, and \<open>session_id\<close> is \<open>float\<close> of \<open>i + 1\<close>.
  Every score value is a result of \<open>float\<close>.
\<close>

theorem agent_run_scores:
  assumes "create_agent_runs_from_data float (Inr (JArr runs_data)) = Inr agent_runs"
  shows "length agent_runs = length runs_data
    \<and> (\<forall>i<length runs_data. \<exists>md tr t total count session.
          subscript (runs_data ! i) ''metadata'' = Inr md
        \<and> dict_get md ''total_rounds'' (JInt 0) = Inr tr
        \<and> (\<forall>kvs. md = JObj kvs \<and> map_of kvs ''total_rounds'' = None \<longrightarrow> tr = JInt 0)
        \<and> transcripts (agent_runs ! i) = [(''main'', t)]
        \<and> float tr = Inr total
        \<and> float (JInt (int (length (transcript_messages t)))) = Inr count
        \<and> float (JInt (int i + 1)) = Inr session
        \<and> scores (agent_runs ! i)
            = [(''total_rounds'', total), (''message_count'', count), (''session_id'', session)]
        \<and> (\<forall>kv\<in>set (scores (agent_runs ! i)). \<exists>x. float x = Inr (snd kv)))"
proof -
  have "\<exists>md tr t total count session.
          subscript (runs_data ! i) ''metadata'' = Inr md
        \<and> dict_get md ''total_rounds'' (JInt 0) = Inr tr
        \<and> (\<forall>kvs. md = JObj kvs \<and> map_of kvs ''total_rounds'' = None \<longrightarrow> tr = JInt 0)
        \<and> transcripts (agent_runs ! i) = [(''main'', t)]
        \<and> float tr = Inr total
        \<and> float (JInt (int (length (transcript_messages t)))) = Inr count
        \<and> float (JInt (int i + 1)) = Inr session
        \<and> scores (agent_runs ! i)
            = [(''total_rounds'', total), (''message_count'', count), (''session_id'', session)]
        \<and> (\<forall>kv\<in>set (scores (agent_runs ! i)). \<exists>x. float x = Inr (snd kv))"
    if "i < length runs_data" for i
  proof -
    from create_agent_runs_nth(2) [OF assms that]
    have "create_agent_run float i (runs_data ! i) = Inr (agent_runs ! i)" .
    from create_agent_run_Inr [OF this] obtain msgs md fname tr total count session
      where md: "subscript (runs_data ! i) ''metadata'' = Inr md"
        and tr: "dict_get md ''total_rounds'' (JInt 0) = Inr tr"
        and fl: "float tr = Inr total" "float (JInt (int (length msgs))) = Inr count"
          "float (JInt (int i + 1)) = Inr session"
        and ar: "agent_runs ! i =
          \<lparr>run_name = [Text ''Negotiation Session '', Val (JInt (int i + 1))],
           run_description = [Text ''Agent negotiation session from '', Val fname],
           transcripts = [(''main'',
             \<lparr>transcript_name = [Text ''Negotiation Session '', Val (JInt (int i + 1))],
              transcript_description = [Text ''Multi-agent negotiation from '', Val fname],
              transcript_messages = msgs\<rparr>)],
           scores = [(''total_rounds'', total), (''message_count'', count),
                     (''session_id'', session)]\<rparr>"
      by blast
    have absent: "\<forall>kvs. md = JObj kvs \<and> map_of kvs ''total_rounds'' = None \<longrightarrow> tr = JInt 0"
      using tr by auto
    have numeric: "\<forall>kv\<in>set (scores (agent_runs ! i)). \<exists>x. float x = Inr (snd kv)"
      unfolding ar using fl by auto
    define t where "t = \<lparr>transcript_name = [Text ''Negotiation Session '', Val (JInt (int i + 1))],
              transcript_description = [Text ''Multi-agent negotiation from '', Val fname],
              transcript_messages = msgs\<rparr>"
    have "transcripts (agent_runs ! i) = [(''main'', t)]"
      and "float (JInt (int (length (transcript_messages t)))) = Inr count"
      and "scores (agent_runs ! i)
            = [(''total_rounds'', total), (''message_count'', count), (''session_id'', session)]"
      unfolding ar t_def using fl by simp_all
    with md tr absent fl numeric show ?thesis by blast
  qed
  with create_agent_runs_nth(1) [OF assms] show ?thesis by blast
qed

lemma example_agent_runs:
  "create_agent_runs_from_data float_of (Inr example_artifact) =
     Inr [\<lparr>run_name = [Text ''Negotiation Session '', Val (JInt 1)],
           run_description = [Text ''Agent negotiation session from '',
                              Val (JStr ''history_1.json'')],
           transcripts =
             [(''main'',
               \<lparr>transcript_name = [Text ''Negotiation Session '', Val (JInt 1)],
                transcript_description = [Text ''Multi-agent negotiation from '',
                                          Val (JStr ''history_1.json'')],
                transcript_messages = [UserMessage (JStr ''Your turn.''),
                                       AssistantMessage (JStr ''I offer 5'')]\<rparr>)],
           scores = [(''total_rounds'', 1), (''message_count'', 2), (''session_id'', 1)]\<rparr>,
          \<lparr>run_name = [Text ''Negotiation Session '', Val (JInt 2)],
           run_description = [Text ''Agent negotiation session from '',
                              Val (JStr ''history_3.json'')],
           transcripts =
             [(''main'',
               \<lparr>transcript_name = [Text ''Negotiation Session '', Val (JInt 2)],
                transcript_description = [Text ''Multi-agent negotiation from '',
                                          Val (JStr ''history_3.json'')],
                transcript_messages = []\<rparr>)],
           scores = [(''total_rounds'', 0), (''message_count'', 0), (''session_id'', 2)]\<rparr>]"
  by code_simp

lemma example_artifact_runs:
  "\<exists>r0 r1. example_artifact = JArr [r0, r1]
    \<and> subscript r0 ''metadata'' = Inr (JObj
               [(''filename'', JStr ''history_1.json''),
                (''experiment_type'', JStr ''multi_agent_negotiation''),
                (''total_rounds'', JInt 1)])
    \<and> subscript r1 ''metadata'' = Inr (JObj [(''filename'', JStr ''history_3.json'')])
    \<and> subscript r0 ''messages'' = Inr (JArr
               [JObj [(''role'', JStr ''user''), (''content'', JStr ''Your turn.'')],
                JObj [(''role'', JStr ''system''), (''content'', JStr ''Be brief.'')],
                JObj [(''role'', JStr ''assistant''), (''content'', JStr ''I offer 5'')]])"
  by (simp add: example_artifact_def)

theorem agent_run_scores_witness:
  "\<exists>agent_runs. create_agent_runs_from_data float_of (Inr example_artifact) = Inr agent_runs
    \<and> length agent_runs = 2
    \<and> scores (agent_runs ! 0)
        = [(''total_rounds'', 1), (''message_count'', 2), (''session_id'', 1)]
    \<and> scores (agent_runs ! 1)
        = [(''total_rounds'', 0), (''message_count'', 0), (''session_id'', 2)]"
proof -
  obtain r0 r1 where art: "example_artifact = JArr [r0, r1]"
    and md0: "subscript r0 ''metadata'' = Inr (JObj
               [(''filename'', JStr ''history_1.json''),
                (''experiment_type'', JStr ''multi_agent_negotiation''),
                (''total_rounds'', JInt 1)])"
    and md1: "subscript r1 ''metadata'' = Inr (JObj [(''filename'', JStr ''history_3.json'')])"
    using example_artifact_runs by blast
  obtain agent_runs
    where ars: "create_agent_runs_from_data float_of (Inr (JArr [r0, r1])) = Inr agent_runs"
      and t0: "map (\<lambda>t. length (transcript_messages (snd t))) (transcripts (agent_runs ! 0)) = [2]"
      and t1: "map (\<lambda>t. length (transcript_messages (snd t))) (transcripts (agent_runs ! 1)) = [0]"
    using example_agent_runs unfolding art by simp
  note all = agent_run_scores [OF ars]
  from all have len: "length agent_runs = 2" by simp
  note nth = all [THEN conjunct2, rule_format]
  have "0 < length [r0, r1]" by simp
  from nth [OF this] obtain md tr t total count session
    where "subscript ([r0, r1] ! 0) ''metadata'' = Inr md"
      and "dict_get md ''total_rounds'' (JInt 0) = Inr tr"
      and "transcripts (agent_runs ! 0) = [(''main'', t)]"
      and "float_of tr = Inr total"
      and "float_of (JInt (int (length (transcript_messages t)))) = Inr count"
      and "float_of (JInt (int 0 + 1)) = Inr session"
      and "scores (agent_runs ! 0)
            = [(''total_rounds'', total), (''message_count'', count), (''session_id'', session)]"
    by (elim exE conjE) (rule that)
  with md0 t0 have s0: "scores (agent_runs ! 0)
        = [(''total_rounds'', 1), (''message_count'', 2), (''session_id'', 1)]"
    by auto
  have "1 < length [r0, r1]" by simp
  from nth [OF this] obtain md' tr' t' total' count' session'
    where "subscript ([r0, r1] ! 1) ''metadata'' = Inr md'"
      and "dict_get md' ''total_rounds'' (JInt 0) = Inr tr'"
      and "transcripts (agent_runs ! 1) = [(''main'', t')]"
      and "float_of tr' = Inr total'"
      and "float_of (JInt (int (length (transcript_messages t')))) = Inr count'"
      and "float_of (JInt (int 1 + 1)) = Inr session'"
      and "scores (agent_runs ! 1)
            = [(''total_rounds'', total'), (''message_count'', count'), (''session_id'', session')]"
    by (elim exE conjE) (rule that)
  with md1 t1 have s1: "scores (agent_runs ! 1)
        = [(''total_rounds'', 0), (''message_count'', 0), (''session_id'', 2)]"
    by auto
  from ars len s0 s1 show ?thesis unfolding art by blast
qed

text \<open>
  Claim C10. For the run at position \<open>i\<close> of the artifact, the messages of the transcript
  built are, in order, the conversions of exactly those messages of the run whose role is
  \<open>user\<close> or \<open>assistant\<close>, a \<open>UserMessage\<close> or an \<open>AssistantMessage\<close> with the message's
  content; a message with any other role adds nothing. The \<open>message_count\<close> score is
  \<open>float\<close> of the number of retained messages, which is at most the length of the run's
  message list and strictly less as soon as one message has another role.
\<close>

theorem only_chat_roles_converted:
  assumes "create_agent_runs_from_data float (Inr (JArr runs_data)) = Inr agent_runs"
    and "i < length runs_data"
  shows "\<exists>ms items t count.
      subscript (runs_data ! i) ''messages'' = Inr ms \<and> py_iter ms = Inr items
    \<and> transcripts (agent_runs ! i) = [(''main'', t)]
    \<and> list_all2 converts_to (filter has_chat_role items) (transcript_messages t)
    \<and> length (transcript_messages t) = length (filter has_chat_role items)
    \<and> float (JInt (int (length (filter has_chat_role items)))) = Inr count
    \<and> map_of (scores (agent_runs ! i)) ''message_count'' = Some count
    \<and> length (transcript_messages t) \<le> length items
    \<and> ((\<exists>m\<in>set items. \<not> has_chat_role m) \<longrightarrow> length (transcript_messages t) < length items)"
proof -
  from create_agent_runs_nth(2) [OF assms]
  have "create_agent_run float i (runs_data ! i) = Inr (agent_runs ! i)" .
  from create_agent_run_Inr [OF this] obtain ms items msgs fname total count session
    where ms: "subscript (runs_data ! i) ''messages'' = Inr ms" "py_iter ms = Inr items"
      and msgs: "convert_messages items = Inr msgs"
      and count: "float (JInt (int (length msgs))) = Inr count"
      and ar: "agent_runs ! i =
          \<lparr>run_name = [Text ''Negotiation Session '', Val (JInt (int i + 1))],
           run_description = [Text ''Agent negotiation session from '', Val fname],
           transcripts = [(''main'',
             \<lparr>transcript_name = [Text ''Negotiation Session '', Val (JInt (int i + 1))],
              transcript_description = [Text ''Multi-agent negotiation from '', Val fname],
              transcript_messages = msgs\<rparr>)],
           scores = [(''total_rounds'', total), (''message_count'', count),
                     (''session_id'', session)]\<rparr>"
    by blast
  define t where "t = \<lparr>transcript_name = [Text ''Negotiation Session '', Val (JInt (int i + 1))],
              transcript_description = [Text ''Multi-agent negotiation from '', Val fname],
              transcript_messages = msgs\<rparr>"
  have tm: "transcript_messages t = msgs" by (simp add: t_def)
  have all2: "list_all2 converts_to (filter has_chat_role items) msgs"
    by (rule convert_messages_Inr [OF msgs])
  then have len: "length msgs = length (filter has_chat_role items)"
    by (simp add: list_all2_lengthD)
  have le: "length msgs \<le> length items" unfolding len by (rule length_filter_le)
  have less: "length msgs < length items" if "\<exists>m\<in>set items. \<not> has_chat_role m"
    using that unfolding len by (auto intro: length_filter_less)
  have "transcripts (agent_runs ! i) = [(''main'', t)]"
    and "map_of (scores (agent_runs ! i)) ''message_count'' = Some count"
    unfolding ar t_def by simp_all
  with ms all2 len count le less tm show ?thesis by auto
qed

theorem only_chat_roles_converted_witness:
  "\<exists>agent_runs ms items t.
      create_agent_runs_from_data float_of (Inr example_artifact) = Inr agent_runs
    \<and> example_artifact = JArr ms
    \<and> subscript (ms ! 0) ''messages'' = Inr (JArr items)
    \<and> length items = 3
    \<and> \<not> has_chat_role (items ! 1)
    \<and> transcripts (agent_runs ! 0) = [(''main'', t)]
    \<and> length (transcript_messages t) < length items
    \<and> map_of (scores (agent_runs ! 0)) ''message_count'' = Some 2"
proof -
  let ?items = "[JObj [(''role'', JStr ''user''), (''content'', JStr ''Your turn.'')],
                JObj [(''role'', JStr ''system''), (''content'', JStr ''Be brief.'')],
                JObj [(''role'', JStr ''assistant''), (''content'', JStr ''I offer 5'')]]"
  obtain r0 r1 where art: "example_artifact = JArr [r0, r1]"
    and ms0: "subscript r0 ''messages'' = Inr (JArr ?items)"
    using example_artifact_runs by blast
  obtain agent_runs
    where ars: "create_agent_runs_from_data float_of (Inr (JArr [r0, r1])) = Inr agent_runs"
    using example_agent_runs unfolding art by simp
  have kept: "filter has_chat_role ?items
      = [JObj [(''role'', JStr ''user''), (''content'', JStr ''Your turn.'')],
         JObj [(''role'', JStr ''assistant''), (''content'', JStr ''I offer 5'')]]"
    by (simp add: has_chat_role_def)
  have sys: "\<not> has_chat_role (?items ! 1)" by (simp add: has_chat_role_def)
  have "0 < length [r0, r1]" by simp
  from only_chat_roles_converted [OF ars this] obtain ms items t count
    where m1: "subscript ([r0, r1] ! 0) ''messages'' = Inr ms" and m2: "py_iter ms = Inr items"
      and t: "transcripts (agent_runs ! 0) = [(''main'', t)]"
      and c: "float_of (JInt (int (length (filter has_chat_role items)))) = Inr count"
      and sc: "map_of (scores (agent_runs ! 0)) ''message_count'' = Some count"
      and less: "(\<exists>m\<in>set items. \<not> has_chat_role m)
          \<longrightarrow> length (transcript_messages t) < length items"
    by (elim exE conjE) (rule that)
  from m1 ms0 have "ms = JArr ?items" by simp
  with m2 have items: "items = ?items" by simp
  from c have "count = 2" unfolding items kept by simp
  with sc have sc2: "map_of (scores (agent_runs ! 0)) ''message_count'' = Some 2" by simp
  have "\<exists>m\<in>set items. \<not> has_chat_role m"
    unfolding items by (simp add: has_chat_role_def)
  with less have lt: "length (transcript_messages t) < length ?items"
    unfolding items by blast
  from ars art ms0 sys t lt sc2 show ?thesis
    by (intro exI [of _ agent_runs] exI [of _ "[r0, r1]"] exI [of _ ?items] exI [of _ t]) simp
qed

subsection \<open>Submitting the batch\<close>

text \<open>
  Claim C8. Once the agent runs are built, \<open>ingest_to_collection\<close> calls
  \<open>add_agent_runs\<close> once, with the collection and all the agent runs, and the client is
  left as that call leaves it. If the call raises, whatever the exception, the result is
  \<open>(False, 0)\<close>; if it returns, the result is \<open>(True, n)\<close> with \<open>n\<close> the number of agent
  runs. No other count is ever reported.
\<close>

theorem ingest_reports_whole_batch:
  assumes "create_agent_runs_from_data float data_file = Inr agent_runs"
  shows "(\<forall>e client'.
            add_agent_runs client collection_id agent_runs = (Inl e, client')
            \<longrightarrow> ingest_to_collection float add_agent_runs client data_file collection_id
                  = Inr ((False, 0), client'))
    \<and> (\<forall>result client'.
            add_agent_runs client collection_id agent_runs = (Inr result, client')
            \<longrightarrow> ingest_to_collection float add_agent_runs client data_file collection_id
                  = Inr ((True, length agent_runs), client'))
    \<and> (\<exists>ok count.
            ingest_to_collection float add_agent_runs client data_file collection_id
              = Inr ((ok, count), snd (add_agent_runs client collection_id agent_runs))
          \<and> ok = (\<not> isl (fst (add_agent_runs client collection_id agent_runs)))
          \<and> count = (if ok then length agent_runs else 0))"
proof -
  obtain res client' where call: "add_agent_runs client collection_id agent_runs = (res, client')"
    by (cases "add_agent_runs client collection_id agent_runs")
  show ?thesis
  proof (cases res)
    case (Inl e)
    with call assms show ?thesis by (auto simp: ingest_to_collection_def)
  next
    case (Inr result)
    with call assms show ?thesis by (auto simp: ingest_to_collection_def)
  qed
qed

theorem ingest_reports_whole_batch_witness:
  "ingest_to_collection float_of accepting [] (Inr example_artifact) ''collection-1''
     = Inr ((True, 2), [(''collection-1'', 2)])
   \<and> ingest_to_collection float_of failing [] (Inr example_artifact) ''collection-1''
     = Inr ((False, 0), [(''collection-1'', 2)])"
proof -
  obtain agent_runs
    where ars: "create_agent_runs_from_data float_of (Inr example_artifact) = Inr agent_runs"
      and len: "length agent_runs = 2"
    using example_agent_runs by simp
  have a: "accepting [] ''collection-1'' agent_runs = (Inr (), [(''collection-1'', 2)])"
    by (simp add: accepting_def len)
  have f: "failing [] ''collection-1'' agent_runs
      = (Inl (ClientError ''connection reset''), [(''collection-1'', 2)])"
    by (simp add: failing_def len)
  from ingest_reports_whole_batch [OF ars, of accepting "[]" "''collection-1''"] a
  have "ingest_to_collection float_of accepting [] (Inr example_artifact) ''collection-1''
     = Inr ((True, length agent_runs), [(''collection-1'', 2)])"
    by blast
  moreover from ingest_reports_whole_batch [OF ars, of failing "[]" "''collection-1''"] f
  have "ingest_to_collection float_of failing [] (Inr example_artifact) ''collection-1''
     = Inr ((False, 0), [(''collection-1'', 2)])"
    by blast
  ultimately show ?thesis using len by simp
qed

end
